theory Spec2Isabelle
  imports Main "HOL-Library.Word" "HOL-Library.Char_ord" "HOL-Library.List_Lexorder"
begin

unbundle bit_operations_syntax

section \<open>Errors\<close>

text \<open>
  The exceptions the sources throw, as values. \<open>Err_bad_argument\<close> and
  \<open>Err_decode_exception\<close> are thrown in atom.hpp; \<open>Table_full\<close> stands for the
  \<open>std::runtime_error\<close> the atom constructors document for a full table.
  \<open>Out_of_bounds\<close> marks a read or write beyond the buffer (undefined behaviour in the
  C++ code, caught only afterwards by \<open>BOOST_ASSERT((size_t)idx <= size)\<close>).
\<close>

datatype error =
    Err_bad_argument string
  | Err_decode_exception nat
  | Table_full
  | Out_of_bounds

section \<open>Atom table\<close>

text \<open>
  Modelled from the spec: \<open>util::atom_table\<close> (eixx/util/atom_table.hpp is not among
  the sources). The table is a fixed-capacity store of byte strings; the index of a string
  is its position; index 0 holds the empty string.
\<close>

record atom_table =
  capacity :: nat
  atoms :: "string list"

text \<open>Modelled from the spec: the longest identifier the table accepts (4.A).\<close>

definition max_atom_bytes :: nat where
  "max_atom_bytes = 255"

definition new_atom_table :: "nat \<Rightarrow> atom_table" where
  "new_atom_table cap = \<lparr>capacity = cap, atoms = [[]]\<rparr>"

fun index_of :: "'a \<Rightarrow> 'a list \<Rightarrow> nat option" where
  "index_of x [] = None"
| "index_of x (y # ys) =
     (if x = y then Some 0
      else (case index_of x ys of None \<Rightarrow> None | Some i \<Rightarrow> Some (Suc i)))"

text \<open>
  Modelled from the spec: \<open>atom_table::lookup\<close>. Empty input returns index 0 without
  allocating; bytes longer than 255 fail with BadArgument; bytes interned before return
  their index; otherwise a new index is allocated, unless the table is full.
\<close>

definition lookup :: "atom_table \<Rightarrow> string \<Rightarrow> error + (nat \<times> atom_table)" where
  "lookup t s =
     (if s = [] then Inr (0, t)
      else if max_atom_bytes < length s then Inl (Err_bad_argument ''Atom size is too long'')
      else (case index_of s (atoms t) of
              Some i \<Rightarrow> Inr (i, t)
            | None \<Rightarrow>
                if capacity t \<le> length (atoms t) then Inl Table_full
                else Inr (length (atoms t), t\<lparr>atoms := atoms t @ [s]\<rparr>)))"

text \<open>
  A run of calls of \<open>lookup\<close>, each on the table the one before left. A call that
  fails throws and leaves the table as it is.
\<close>

fun lookup_seq :: "atom_table \<Rightarrow> string list \<Rightarrow> atom_table" where
  "lookup_seq t [] = t"
| "lookup_seq t (s # ss) =
     (case lookup t s of Inl e \<Rightarrow> lookup_seq t ss | Inr r \<Rightarrow> lookup_seq (snd r) ss)"

text \<open>Modelled from the spec: \<open>atom_table::operator[]\<close> (\<open>get(index)\<close> in 4.A).\<close>

definition table_get :: "atom_table \<Rightarrow> nat \<Rightarrow> string" where
  "table_get t i = atoms t ! i"

text \<open>
  The invariant of the table (section 3 of the spec): index 0 is the empty atom, distinct
  indices map to distinct byte strings, and no entry is longer than 255 bytes.
\<close>

definition atom_table_inv :: "atom_table \<Rightarrow> bool" where
  "atom_table_inv t \<longleftrightarrow>
     atoms t \<noteq> [] \<and> hd (atoms t) = [] \<and> distinct (atoms t) \<and>
     list_all (\<lambda>s. length s \<le> max_atom_bytes) (atoms t)"

section \<open>Atoms (atom.hpp)\<close>

datatype atom = Atom (m_index: nat)

text \<open>\<open>atom()\<close>: the empty atom.\<close>

definition atom_null :: atom where
  "atom_null = Atom 0"

text \<open>\<open>atom(const std::string&)\<close>, \<open>atom(const char*, size_t)\<close>.\<close>

definition atom_of_string :: "atom_table \<Rightarrow> string \<Rightarrow> error + (atom \<times> atom_table)" where
  "atom_of_string t s =
     (case lookup t s of Inl e \<Rightarrow> Inl e | Inr (i, t') \<Rightarrow> Inr (Atom i, t'))"

definition to_string :: "atom_table \<Rightarrow> atom \<Rightarrow> string" where
  "to_string t a = table_get t (m_index a)"

definition atom_size :: "atom_table \<Rightarrow> atom \<Rightarrow> nat" where
  "atom_size t a = length (to_string t a)"

definition atom_empty :: "atom \<Rightarrow> bool" where
  "atom_empty a \<longleftrightarrow> m_index a = 0"

text \<open>An atom is valid in a table when its index has been allocated there.\<close>

definition atom_valid :: "atom_table \<Rightarrow> atom \<Rightarrow> bool" where
  "atom_valid t a \<longleftrightarrow> m_index a < length (atoms t)"

section \<open>C strings\<close>

definition NUL :: char where
  "NUL = CHR 0x00"

text \<open>
  \<open>strlen\<close> and \<open>strcmp\<close> of the C library. A \<open>std::string\<close> holds its bytes
  followed by a terminating NUL, and \<open>c_str()\<close> points at them; both functions read up
  to the first NUL, which is the terminator unless the string has a NUL byte of its own.
  \<open>strcmp\<close> compares the bytes as \<open>unsigned char\<close>; the C standard fixes only the sign
  of its result, and the sources use only the sign.
\<close>

text \<open>The C string at \<open>c_str()\<close>: the bytes before the first NUL.\<close>

definition c_str :: "string \<Rightarrow> string" where
  "c_str s = takeWhile (\<lambda>c. c \<noteq> NUL) s"

definition strlen :: "string \<Rightarrow> nat" where
  "strlen s = length (takeWhile (\<lambda>c. c \<noteq> NUL) s)"

fun strcmp :: "string \<Rightarrow> string \<Rightarrow> int" where
  "strcmp [] [] = 0"
| "strcmp [] (y # ys) = - int (of_char y)"
| "strcmp (x # xs) [] = int (of_char x)"
| "strcmp (x # xs) (y # ys) =
     (if x \<noteq> y then int (of_char x) - int (of_char y)
      else if x = NUL then 0
      else strcmp xs ys)"

text \<open>\<open>std::string::find(char)\<close>: the first position of the character, or \<open>npos\<close>.\<close>

definition npos :: nat where
  "npos = 2 ^ 64 - 1"

definition string_find :: "string \<Rightarrow> char \<Rightarrow> nat" where
  "string_find s c = (case index_of c s of Some i \<Rightarrow> i | None \<Rightarrow> npos)"

section \<open>Atom comparison (atom.hpp)\<close>

text \<open>\<open>operator==(const atom&)\<close>, \<open>operator<(const atom&)\<close> and \<open>compare\<close>.\<close>

definition atom_eq :: "atom \<Rightarrow> atom \<Rightarrow> bool" where
  "atom_eq a rhs \<longleftrightarrow> m_index a = m_index rhs"

definition atom_less :: "atom_table \<Rightarrow> atom \<Rightarrow> atom \<Rightarrow> bool" where
  "atom_less t a rhs \<longleftrightarrow> strcmp (to_string t a) (to_string t rhs) < 0"

definition atom_compare :: "atom_table \<Rightarrow> atom \<Rightarrow> atom \<Rightarrow> int" where
  "atom_compare t a rhs =
     (if m_index a = m_index rhs then 0 else strcmp (to_string t a) (to_string t rhs))"

text \<open>No byte of the atom's string is NUL.\<close>

definition nul_free :: "string \<Rightarrow> bool" where
  "nul_free s \<longleftrightarrow> list_all (\<lambda>c. c \<noteq> NUL) s"

section \<open>Node names (atom.hpp)\<close>

text \<open>
  Modelled from the spec: \<open>MAXNODELEN\<close>, a macro of \<open>ei.h\<close>, which is not among the
  sources; section 3 gives node names a length in [1, 255].
\<close>

definition MAXNODELEN :: nat where
  "MAXNODELEN = 255"

definition check_node_length :: "nat \<Rightarrow> error + unit" where
  "check_node_length len =
     (if MAXNODELEN < len then Inl (Err_bad_argument ''Node name too long!'')
      else if len = 0 then Inl (Err_bad_argument ''Empty node name'')
      else Inr ())"

text \<open>
  \<open>make_node_name\<close>. The test \<open>!s.find('@')\<close> negates a \<open>size_t\<close>: it holds when the
  position found is 0, and \<open>npos\<close> is not 0.
\<close>

definition make_node_name :: "atom_table \<Rightarrow> string \<Rightarrow> error + (atom \<times> atom_table)" where
  "make_node_name t s =
     (if string_find s CHR ''@'' = 0 then Inl (Err_bad_argument ''Invalid node name'')
      else (case check_node_length (length s) of
              Inl e \<Rightarrow> Inl e
            | Inr _ \<Rightarrow> atom_of_string t s))"

text \<open>The invariant of a node atom's string (section 3 of the spec).\<close>

definition node_name_ok :: "string \<Rightarrow> bool" where
  "node_name_ok s \<longleftrightarrow> 1 \<le> length s \<and> length s \<le> MAXNODELEN \<and> CHR ''@'' \<in> set s"

section \<open>Big-endian cursor primitives (endian.hpp)\<close>

text \<open>
  A cursor is an offset into the buffer. Each primitive returns the value read (or the
  buffer written) with the advanced cursor; an access outside the buffer is
  \<open>Out_of_bounds\<close>. A \<open>uint8_t\<close> argument keeps the low 8 bits, a \<open>uint16_t\<close> the low 16.
\<close>

definition get8 :: "string \<Rightarrow> nat \<Rightarrow> error + (nat \<times> nat)" where
  "get8 buf s =
     (if s < length buf then Inr (of_char (buf ! s), s + 1) else Inl Out_of_bounds)"

definition get16be :: "string \<Rightarrow> nat \<Rightarrow> error + (nat \<times> nat)" where
  "get16be buf s =
     (if s + 2 \<le> length buf
      then Inr (of_char (buf ! s) * 256 + of_char (buf ! (s + 1)), s + 2)
      else Inl Out_of_bounds)"

definition put8 :: "string \<Rightarrow> nat \<Rightarrow> nat \<Rightarrow> error + (string \<times> nat)" where
  "put8 buf s n =
     (if s < length buf then Inr (buf[s := char_of n], s + 1) else Inl Out_of_bounds)"

definition put16be :: "string \<Rightarrow> nat \<Rightarrow> nat \<Rightarrow> error + (string \<times> nat)" where
  "put16be buf s n =
     (if s + 2 \<le> length buf
      then Inr (buf[s := char_of (n mod 65536 div 256), s + 1 := char_of n], s + 2)
      else Inl Out_of_bounds)"

text \<open>\<open>memmove(s, src, len)\<close> with \<open>src\<close> holding exactly the \<open>len\<close> bytes copied.\<close>

definition memmove :: "string \<Rightarrow> nat \<Rightarrow> string \<Rightarrow> error + string" where
  "memmove buf s src =
     (if s + length src \<le> length buf
      then Inr (take s buf @ src @ drop (s + length src) buf)
      else Inl Out_of_bounds)"

section \<open>Atom codec (atom.hpp)\<close>

text \<open>
  Opcodes of the external term format (section 6 of the spec), and \<open>MAXATOMLEN\<close>, which
  the comment in \<open>atom::encode\<close> gives as 256.
\<close>

definition ERL_ATOM_EXT :: nat where
  "ERL_ATOM_EXT = 100"

definition ERL_SMALL_ATOM_EXT :: nat where
  "ERL_SMALL_ATOM_EXT = 115"

definition MAXATOMLEN :: nat where
  "MAXATOMLEN = 256"

definition atom_encode_size :: "atom_table \<Rightarrow> atom \<Rightarrow> nat" where
  "atom_encode_size t a = 3 + atom_size t a"

text \<open>
  \<open>atom::encode(buf, idx, size)\<close>: the buffer is the list \<open>buf\<close>, of length \<open>size\<close>;
  the result is the buffer written and the new \<open>idx\<close>.
\<close>

definition atom_encode :: "atom_table \<Rightarrow> atom \<Rightarrow> string \<Rightarrow> nat \<Rightarrow> error + (string \<times> nat)" where
  "atom_encode t a buf idx =
     (let len = min MAXATOMLEN (atom_size t a) in
      case put8 buf idx ERL_ATOM_EXT of
        Inl e \<Rightarrow> Inl e
      | Inr (b1, s1) \<Rightarrow>
          (case put16be b1 s1 len of
             Inl e \<Rightarrow> Inl e
           | Inr (b2, s2) \<Rightarrow>
               (case memmove b2 s2 (take len (to_string t a)) of
                  Inl e \<Rightarrow> Inl e
                | Inr b3 \<Rightarrow> Inr (b3, idx + (s2 + len - idx)))))"

text \<open>
  \<open>atom::atom(a_buf, idx, a_size)\<close>: decodes at \<open>idx\<close>; the result is the atom, the new
  \<open>idx\<close> and the table after interning.
\<close>

definition atom_decode :: "atom_table \<Rightarrow> string \<Rightarrow> nat \<Rightarrow> error + (atom \<times> nat \<times> atom_table)" where
  "atom_decode t a_buf idx =
     (case get8 a_buf idx of
        Inl e \<Rightarrow> Inl e
      | Inr (tag, s1) \<Rightarrow>
          (case (if tag = ERL_ATOM_EXT then get16be a_buf s1
                 else if tag = ERL_SMALL_ATOM_EXT then get8 a_buf s1
                 else Inl (Err_decode_exception idx)) of
             Inl e \<Rightarrow> Inl e
           | Inr (len, s) \<Rightarrow>
               if length a_buf < s + len then Inl Out_of_bounds
               else (case lookup t (take len (drop s a_buf)) of
                       Inl e \<Rightarrow> Inl e
                     | Inr (i, t') \<Rightarrow> Inr (Atom i, idx + (s + len - idx), t'))))"

text \<open>
  The \<open>ATOM_EXT\<close> form of an atom as section 6 of the spec gives it: the opcode, the
  length in two bytes, big-endian, and the bytes. \<open>encode\<close> is compared with it.
\<close>

definition atom_ext_form :: "atom_table \<Rightarrow> atom \<Rightarrow> string" where
  "atom_ext_form t a =
     [char_of ERL_ATOM_EXT, char_of (atom_size t a div 256), char_of (atom_size t a)]
       @ to_string t a"

section \<open>Ports (port.hpp)\<close>

record port_blob =
  blob_creation :: "8 word"
  blob_id :: "32 word"
  blob_node :: atom

text \<open>A port holds a pointer to its blob, or \<open>nullptr\<close>.\<close>

type_synonym port = "port_blob option"

definition port_init :: "atom \<Rightarrow> 32 word \<Rightarrow> 8 word \<Rightarrow> port" where
  "port_init node i cre =
     Some \<lparr>blob_creation = cre AND 0x03, blob_id = i AND 0x0fffffff, blob_node = node\<rparr>"

text \<open>
  \<open>port(const atom& node, const int id, const int creation)\<close>: the \<open>int\<close> creation is
  converted to the \<open>uint8_t\<close> parameter of \<open>init\<close>.
\<close>

definition port_of_atom :: "atom_table \<Rightarrow> atom \<Rightarrow> 32 word \<Rightarrow> 32 word \<Rightarrow> error + port" where
  "port_of_atom t node i cre =
     (case check_node_length (atom_size t node) of
        Inl e \<Rightarrow> Inl e
      | Inr _ \<Rightarrow> Inr (port_init node i (ucast cre)))"

text \<open>\<open>port(const char* node, const int id, const int creation)\<close>.\<close>

definition port_of_cstr ::
  "atom_table \<Rightarrow> string \<Rightarrow> 32 word \<Rightarrow> 32 word \<Rightarrow> error + (port \<times> atom_table)" where
  "port_of_cstr t node i cre =
     (let n = strlen node in
      case check_node_length n of
        Inl e \<Rightarrow> Inl e
      | Inr _ \<Rightarrow>
          (case atom_of_string t (take n node) of
             Inl e \<Rightarrow> Inl e
           | Inr (l_node, t') \<Rightarrow> Inr (port_init l_node i (ucast cre), t')))"

definition port_node :: "port \<Rightarrow> atom" where
  "port_node p = (case p of None \<Rightarrow> atom_null | Some b \<Rightarrow> blob_node b)"

definition port_id :: "port \<Rightarrow> int" where
  "port_id p = (case p of None \<Rightarrow> 0 | Some b \<Rightarrow> sint (blob_id b))"

definition port_creation :: "port \<Rightarrow> int" where
  "port_creation p = (case p of None \<Rightarrow> 0 | Some b \<Rightarrow> uint (blob_creation b))"

definition port_eq :: "port \<Rightarrow> port \<Rightarrow> bool" where
  "port_eq p t \<longleftrightarrow>
     port_id p = port_id t \<and> atom_eq (port_node p) (port_node t)
     \<and> port_creation p = port_creation t"

definition port_less :: "atom_table \<Rightarrow> port \<Rightarrow> port \<Rightarrow> bool" where
  "port_less t p rhs =
     (let n = atom_compare t (port_node p) (port_node rhs) in
      if n > 0 then True
      else if n < 0 then False
      else if port_id p < port_id rhs then True
      else if port_id p > port_id rhs then False
      else if port_creation p < port_creation rhs then True
      else if port_creation p > port_creation rhs then False
      else False)"

section \<open>Pids\<close>

text \<open>
  Modelled from the spec: the pid constructor from components (the pid class is not among
  the sources; \<open>test_pid\<close> in test_eterm.cpp calls it). Section 3: a pid is (node atom,
  28-bit id, 32-bit serial, 2-bit creation); the creation is reduced modulo 4 at
  construction and the id is masked to its low 28 bits.
\<close>

record pid_blob =
  pid_blob_creation :: "8 word"
  pid_blob_serial :: "32 word"
  pid_blob_id :: "32 word"
  pid_blob_node :: atom

definition epid_init :: "atom \<Rightarrow> 32 word \<Rightarrow> 32 word \<Rightarrow> 32 word \<Rightarrow> pid_blob" where
  "epid_init node i serial cre =
     \<lparr>pid_blob_creation = word_of_int (sint cre mod 4),
      pid_blob_serial = serial,
      pid_blob_id = take_bit 28 i,
      pid_blob_node = node\<rparr>"

definition epid_id :: "pid_blob \<Rightarrow> int" where
  "epid_id p = sint (pid_blob_id p)"

definition epid_creation :: "pid_blob \<Rightarrow> int" where
  "epid_creation p = uint (pid_blob_creation p)"


section \<open>Exceptions\<close>

text \<open>
  What a C++ throw can throw: an object of a class derived from \<open>std::exception\<close> (with
  its message), which is what \<open>catch (std::exception&)\<close> handles, or an object of any
  other type, which only \<open>catch (...)\<close> handles.
\<close>

datatype exn = Std_exception string | Other_exception

text \<open>
  Which operations throw is not decided by the mailbox: it is a parameter, a list that
  holds, for each operation that can throw, in the order in which they are executed, the
  exception it throws or \<open>None\<close>. Past the end of the list nothing throws.
\<close>

definition next_fault :: "exn option list \<Rightarrow> exn option \<times> exn option list" where
  "next_fault fs = (case fs of [] \<Rightarrow> (None, []) | f # fs' \<Rightarrow> (f, fs'))"

section \<open>Transport messages\<close>

text \<open>
  Modelled from the spec: the transport message (4.I; transport_msg.hpp is not among the
  sources). It carries a control type, sender, reference and payload, and an error flag;
  its accessors are total. The control types are those \<open>do_deliver\<close> names, those of the
  table in 4.H and the remaining ones of the distribution protocol.
\<close>

datatype transport_msg_type =
    UNDEFINED | LINK | SEND | EXIT | UNLINK | NODE_LINK | REG_SEND | GROUP_LEADER
  | EXIT2 | SEND_TT | EXIT_TT | REG_SEND_TT | EXIT2_TT
  | MONITOR_P | DEMONITOR_P | MONITOR_P_EXIT

record ('p, 'r, 't) transport_msg =
  msg_type :: transport_msg_type
  sender_pid :: 'p
  get_ref :: 'r
  msg :: 't
  error_flag :: bool

definition set_error_flag :: "('p, 'r, 't) transport_msg \<Rightarrow> ('p, 'r, 't) transport_msg" where
  "set_error_flag m = m\<lparr>error_flag := True\<rparr>"

section \<open>The node\<close>

text \<open>
  Modelled from the spec: the node the mailbox belongs to (section 6: \<open>send_exit\<close>,
  \<open>send_monitor_exit\<close>, \<open>close_mailbox\<close>; the node class is not among the sources).
  The node records every call made to it; \<open>node_throws\<close> tells for each send whether it
  throws. A send returns the exception thrown, if any, and the node after the call.
\<close>

datatype ('p, 'r, 't) node_call =
    Send_exit 'p 'p 't
  | Send_monitor_exit 'p 'p 'r 't
  | Close_mailbox 'p

record ('p, 'r, 't) node =
  node_calls :: "('p, 'r, 't) node_call list"
  node_throws :: "('p, 'r, 't) node_call \<Rightarrow> exn option"

definition send_exit ::
  "('p, 'r, 't) node \<Rightarrow> 'p \<Rightarrow> 'p \<Rightarrow> 't \<Rightarrow> exn option \<times> ('p, 'r, 't) node" where
  "send_exit nd from to reason =
     (node_throws nd (Send_exit from to reason),
      nd\<lparr>node_calls := node_calls nd @ [Send_exit from to reason]\<rparr>)"

definition send_monitor_exit ::
  "('p, 'r, 't) node \<Rightarrow> 'p \<Rightarrow> 'p \<Rightarrow> 'r \<Rightarrow> 't \<Rightarrow> exn option \<times> ('p, 'r, 't) node" where
  "send_monitor_exit nd from to ref reason =
     (node_throws nd (Send_monitor_exit from to ref reason),
      nd\<lparr>node_calls := node_calls nd @ [Send_monitor_exit from to ref reason]\<rparr>)"

definition close_mailbox :: "('p, 'r, 't) node \<Rightarrow> 'p \<Rightarrow> ('p, 'r, 't) node" where
  "close_mailbox nd mbox = nd\<lparr>node_calls := node_calls nd @ [Close_mailbox mbox]\<rparr>"

section \<open>The mailbox (basic_otp_mailbox.hxx)\<close>

text \<open>
  \<open>m_links\<close> is a \<open>std::set\<close> of pids and \<open>m_monitors\<close> a \<open>std::map\<close> from
  reference to pid: lists without repeated elements (keys), with the containers'
  \<open>insert\<close>, which leaves an element (key) that is present as it is, and \<open>erase\<close>.
  The order in which the containers are traversed is that of the list.
  \<open>m_time_freed\<close> is the tick count of the time point, 0 while the mailbox is live.
\<close>

record ('p, 'r, 't) mailbox =
  m_self :: 'p
  m_name :: atom
  m_links :: "'p list"
  m_monitors :: "('r \<times> 'p) list"
  m_queue :: "('p, 'r, 't) transport_msg list"
  m_time_freed :: nat

definition set_insert :: "'a \<Rightarrow> 'a list \<Rightarrow> 'a list" where
  "set_insert x xs = (if x \<in> set xs then xs else xs @ [x])"

definition set_erase :: "'a \<Rightarrow> 'a list \<Rightarrow> 'a list" where
  "set_erase x xs = removeAll x xs"

definition map_insert :: "'k \<Rightarrow> 'v \<Rightarrow> ('k \<times> 'v) list \<Rightarrow> ('k \<times> 'v) list" where
  "map_insert k v m = (if k \<in> set (map fst m) then m else m @ [(k, v)])"

definition map_erase :: "'k \<Rightarrow> ('k \<times> 'v) list \<Rightarrow> ('k \<times> 'v) list" where
  "map_erase k m = filter (\<lambda>kv. fst kv \<noteq> k) m"

definition push_back :: "'a \<Rightarrow> 'a list \<Rightarrow> 'a list" where
  "push_back x q = q @ [x]"

text \<open>Modelled from the spec: the queue's \<open>reset()\<close> drops the queued messages (4.G).\<close>

definition queue_reset :: "'a list \<Rightarrow> 'a list" where
  "queue_reset q = []"

definition mailbox_inv :: "('p, 'r, 't) mailbox \<Rightarrow> bool" where
  "mailbox_inv mb \<longleftrightarrow> distinct (m_links mb) \<and> distinct (map fst (m_monitors mb))"

text \<open>
  The body of the \<open>try\<close> block of \<open>do_deliver\<close>. The operations in it that can
  throw are the insertions into \<open>m_links\<close> and \<open>m_monitors\<close> and the queue's
  \<open>push_back\<close>; \<open>erase\<close> and the accessors of the message do not throw. The result is
  the exception thrown, if any, the mailbox at that point (what was erased before the throw
  stays erased) and the faults not yet consumed. A message that is deleted is in no queue
  afterwards. The \<open>BOOST_ASSERT\<close>s state what the caller guarantees about the recipient;
  they compile to nothing under \<open>NDEBUG\<close> and are left out.
\<close>

definition dispatch ::
  "exn option list \<Rightarrow> ('p, 'r, 't) transport_msg \<Rightarrow> ('p, 'r, 't) mailbox
     \<Rightarrow> exn option \<times> ('p, 'r, 't) mailbox \<times> exn option list" where
  "dispatch fs a_msg mb =
     (case msg_type a_msg of
        LINK \<Rightarrow>
          (case next_fault fs of
             (Some e, fs') \<Rightarrow> (Some e, mb, fs')
           | (None, fs') \<Rightarrow>
               (None, mb\<lparr>m_links := set_insert (sender_pid a_msg) (m_links mb)\<rparr>, fs'))
      | UNLINK \<Rightarrow>
          (None, mb\<lparr>m_links := set_erase (sender_pid a_msg) (m_links mb)\<rparr>, fs)
      | MONITOR_P \<Rightarrow>
          (case next_fault fs of
             (Some e, fs') \<Rightarrow> (Some e, mb, fs')
           | (None, fs') \<Rightarrow>
               (None,
                mb\<lparr>m_monitors :=
                     map_insert (get_ref a_msg) (sender_pid a_msg) (m_monitors mb)\<rparr>,
                fs'))
      | DEMONITOR_P \<Rightarrow>
          (None, mb\<lparr>m_monitors := map_erase (get_ref a_msg) (m_monitors mb)\<rparr>, fs)
      | MONITOR_P_EXIT \<Rightarrow>
          (case next_fault fs of
             (Some e, fs') \<Rightarrow>
               (Some e, mb\<lparr>m_monitors := map_erase (get_ref a_msg) (m_monitors mb)\<rparr>, fs')
           | (None, fs') \<Rightarrow>
               (None,
                mb\<lparr>m_monitors := map_erase (get_ref a_msg) (m_monitors mb),
                   m_queue := push_back a_msg (m_queue mb)\<rparr>,
                fs'))
      | EXIT2 \<Rightarrow>
          (case next_fault fs of
             (Some e, fs') \<Rightarrow>
               (Some e, mb\<lparr>m_links := set_erase (sender_pid a_msg) (m_links mb)\<rparr>, fs')
           | (None, fs') \<Rightarrow>
               (None,
                mb\<lparr>m_links := set_erase (sender_pid a_msg) (m_links mb),
                   m_queue := push_back a_msg (m_queue mb)\<rparr>,
                fs'))
      | EXIT2_TT \<Rightarrow>
          (case next_fault fs of
             (Some e, fs') \<Rightarrow>
               (Some e, mb\<lparr>m_links := set_erase (sender_pid a_msg) (m_links mb)\<rparr>, fs')
           | (None, fs') \<Rightarrow>
               (None,
                mb\<lparr>m_links := set_erase (sender_pid a_msg) (m_links mb),
                   m_queue := push_back a_msg (m_queue mb)\<rparr>,
                fs'))
      | _ \<Rightarrow>
          (case next_fault fs of
             (Some e, fs') \<Rightarrow> (Some e, mb, fs')
           | (None, fs') \<Rightarrow> (None, mb\<lparr>m_queue := push_back a_msg (m_queue mb)\<rparr>, fs')))"

text \<open>
  \<open>do_deliver\<close>: the \<open>try\<close> block and its \<open>catch (std::exception&)\<close>, whose
  \<open>push_back\<close> can throw too. The result is the exception that leaves \<open>do_deliver\<close>,
  if any, and the mailbox. An exception that is not a \<open>std::exception\<close> is not caught.
\<close>

definition do_deliver ::
  "exn option list \<Rightarrow> ('p, 'r, 't) transport_msg \<Rightarrow> ('p, 'r, 't) mailbox
     \<Rightarrow> exn option \<times> ('p, 'r, 't) mailbox" where
  "do_deliver fs a_msg mb =
     (case dispatch fs a_msg mb of
        (None, mb', fs') \<Rightarrow> (None, mb')
      | (Some (Std_exception w), mb', fs') \<Rightarrow>
          (case next_fault fs' of
             (Some e, fs'') \<Rightarrow> (Some e, mb')
           | (None, fs'') \<Rightarrow>
               (None, mb'\<lparr>m_queue := push_back (set_error_flag a_msg) (m_queue mb')\<rparr>))
      | (Some Other_exception, mb', fs') \<Rightarrow> (Some Other_exception, mb'))"

text \<open>
  \<open>break_links\<close>: the two loops, each \<open>try { send } catch (...) {}\<close>, then the two
  \<open>clear()\<close>s.
\<close>

fun send_exit_loop ::
  "'p \<Rightarrow> 't \<Rightarrow> 'p list \<Rightarrow> ('p, 'r, 't) node \<Rightarrow> ('p, 'r, 't) node" where
  "send_exit_loop self a_reason [] nd = nd"
| "send_exit_loop self a_reason (p # ps) nd =
     (case send_exit nd self p a_reason of
        (Some e, nd') \<Rightarrow> send_exit_loop self a_reason ps nd'
      | (None, nd') \<Rightarrow> send_exit_loop self a_reason ps nd')"

fun send_monitor_exit_loop ::
  "'p \<Rightarrow> 't \<Rightarrow> ('r \<times> 'p) list \<Rightarrow> ('p, 'r, 't) node \<Rightarrow> ('p, 'r, 't) node" where
  "send_monitor_exit_loop self a_reason [] nd = nd"
| "send_monitor_exit_loop self a_reason (rp # rps) nd =
     (case send_monitor_exit nd self (snd rp) (fst rp) a_reason of
        (Some e, nd') \<Rightarrow> send_monitor_exit_loop self a_reason rps nd'
      | (None, nd') \<Rightarrow> send_monitor_exit_loop self a_reason rps nd')"

definition break_links ::
  "'t \<Rightarrow> ('p, 'r, 't) node \<times> ('p, 'r, 't) mailbox
      \<Rightarrow> ('p, 'r, 't) node \<times> ('p, 'r, 't) mailbox" where
  "break_links a_reason st =
     (let nd = fst st; mb = snd st;
          nd1 = send_exit_loop (m_self mb) a_reason (m_links mb) nd;
          nd2 = send_monitor_exit_loop (m_self mb) a_reason (m_monitors mb) nd1;
          mb1 = (if m_links mb \<noteq> [] then mb\<lparr>m_links := []\<rparr> else mb);
          mb2 = (if m_monitors mb1 \<noteq> [] then mb1\<lparr>m_monitors := []\<rparr> else mb1)
      in (nd2, mb2))"

text \<open>\<open>close(a_reason, a_reg_remove)\<close>; \<open>now\<close> is the reading of the system clock.\<close>

definition close ::
  "nat \<Rightarrow> 't \<Rightarrow> bool \<Rightarrow> ('p, 'r, 't) node \<times> ('p, 'r, 't) mailbox
      \<Rightarrow> ('p, 'r, 't) node \<times> ('p, 'r, 't) mailbox" where
  "close now a_reason a_reg_remove st =
     (let nd = fst st;
          mb1 = (snd st)\<lparr>m_time_freed := now\<rparr>;
          mb2 = mb1\<lparr>m_queue := queue_reset (m_queue mb1)\<rparr>;
          nd1 = (if a_reg_remove then close_mailbox nd (m_self mb2) else nd);
          st3 = break_links a_reason (nd1, mb2)
      in (fst st3, (snd st3)\<lparr>m_name := atom_null\<rparr>))"

section \<open>Receive handlers (basic_otp_mailbox.hxx)\<close>

text \<open>
  The lambdas that \<open>async_receive\<close> and \<open>async_match\<close> hand to the queue's
  \<open>async_dequeue\<close>. The user's handler acts on a state of its own, \<open>'u\<close>, and returns
  whether to go on; the lambda returns its result, the message pointer it leaves in
  \<open>a_msg\<close> (\<open>None\<close> is \<open>nullptr\<close>) and the user's state. \<open>if (ec)\<close> holds for every
  error code but success.
\<close>

datatype error_code = Success | Timed_out | Operation_aborted

definition async_receive_handler ::
  "(('p, 'r, 't) mailbox \<Rightarrow> ('p, 'r, 't) transport_msg option \<Rightarrow> 'u \<Rightarrow> bool \<times> 'u)
     \<Rightarrow> ('p, 'r, 't) mailbox \<Rightarrow> ('p, 'r, 't) transport_msg option \<Rightarrow> error_code \<Rightarrow> 'u
     \<Rightarrow> bool \<times> ('p, 'r, 't) transport_msg option \<times> 'u" where
  "async_receive_handler h mb a_msg ec u =
     (if m_time_freed mb = 0 then (False, a_msg, u)
      else if ec \<noteq> Success then (fst (h mb None u), a_msg, snd (h mb None u))
      else (fst (h mb a_msg u), None, snd (h mb a_msg u)))"

text \<open>
  In \<open>async_match\<close> the user's code is the timeout handler and the actions that the
  pattern matcher runs on a match; \<open>match\<close> stands for \<open>a_matcher.match\<close>, whose
  result the lambda ignores.
\<close>

definition async_match_handler ::
  "('t \<Rightarrow> 'u \<Rightarrow> 'u) \<Rightarrow> (('p, 'r, 't) mailbox \<Rightarrow> 'u \<Rightarrow> 'u)
     \<Rightarrow> ('p, 'r, 't) mailbox \<Rightarrow> ('p, 'r, 't) transport_msg option \<Rightarrow> error_code \<Rightarrow> 'u
     \<Rightarrow> bool \<times> ('p, 'r, 't) transport_msg option \<times> 'u" where
  "async_match_handler match a_on_timeout mb a_msg ec u =
     (if m_time_freed mb = 0 then (False, a_msg, u)
      else if ec \<noteq> Success then (False, a_msg, a_on_timeout mb u)
      else (case a_msg of
              Some m \<Rightarrow> (True, None, match (msg m) u)
            | None \<Rightarrow> (True, None, u)))"


section \<open>Facts about the table\<close>

lemma index_of_None: "index_of x xs = None \<longleftrightarrow> x \<notin> set xs"
  by (induction xs) (auto split: option.splits)

lemma index_of_Some: "index_of x xs = Some i \<Longrightarrow> i < length xs \<and> xs ! i = x"
  by (induction xs arbitrary: i) (auto split: if_splits option.splits)

lemma index_of_append_new: "x \<notin> set xs \<Longrightarrow> index_of x (xs @ [x]) = Some (length xs)"
  by (induction xs) auto

lemma index_of_nth: "distinct xs \<Longrightarrow> i < length xs \<Longrightarrow> index_of (xs ! i) xs = Some i"
proof (induction xs arbitrary: i)
  case Nil
  then show ?case by simp
next
  case (Cons y ys)
  show ?case
  proof (cases i)
    case 0
    then show ?thesis by simp
  next
    case (Suc j)
    with Cons.prems have "ys ! j \<in> set ys" "y \<notin> set ys" "j < length ys" "distinct ys"
      by auto
    with Cons.IH [of j] Suc show ?thesis by auto
  qed
qed

lemma new_atom_table_inv: "atom_table_inv (new_atom_table cap)"
  by (simp add: atom_table_inv_def new_atom_table_def)

lemma lookup_inv:
  assumes "atom_table_inv t" and "lookup t s = Inr (i, t')"
  shows "atom_table_inv t'"
  using assms
  by (auto simp: lookup_def atom_table_inv_def index_of_None
           split: if_splits option.splits)

lemma lookup_valid:
  assumes "atom_table_inv t" and "lookup t s = Inr (i, t')"
  shows "i < length (atoms t') \<and> atoms t' ! i = s"
  using assms
  by (auto simp: lookup_def atom_table_inv_def hd_conv_nth nth_append
           dest: index_of_Some split: if_splits option.splits)

lemma lookup_interned:
  assumes "atom_table_inv t" and "i < length (atoms t)"
  shows "lookup t (atoms t ! i) = Inr (i, t)"
proof (cases "atoms t ! i = []")
  case True
  from assms have "atoms t ! 0 = []" "0 < length (atoms t)" "distinct (atoms t)"
    by (auto simp: atom_table_inv_def hd_conv_nth)
  with True assms(2) have "i = 0"
    by (metis nth_eq_iff_index_eq)
  with True show ?thesis by (simp add: lookup_def)
next
  case False
  from assms have len: "length (atoms t ! i) \<le> max_atom_bytes"
    by (auto simp: atom_table_inv_def list_all_length)
  from assms have "index_of (atoms t ! i) (atoms t) = Some i"
    by (auto simp: atom_table_inv_def intro: index_of_nth)
  with False len show ?thesis by (simp add: lookup_def)
qed

lemma atom_decode_inv:
  assumes "atom_table_inv t" and "atom_decode t buf idx = Inr (a, idx', t')"
  shows "atom_table_inv t' \<and> atom_valid t' a"
proof -
  from assms(2) obtain s where "lookup t s = Inr (m_index a, t')"
    by (auto simp: atom_decode_def split: sum.splits if_splits prod.splits)
  with assms(1) show ?thesis
    by (auto simp: atom_valid_def dest: lookup_inv lookup_valid)
qed

lemma atom_of_string_inv:
  assumes "atom_table_inv t" and "atom_of_string t s = Inr (a, t')"
  shows "atom_table_inv t' \<and> atom_valid t' a \<and> to_string t' a = s"
proof -
  from assms(2) have "lookup t s = Inr (m_index a, t')"
    by (auto simp: atom_of_string_def split: sum.splits prod.splits)
  with assms(1) show ?thesis
    by (auto simp: atom_valid_def to_string_def table_get_def dest: lookup_inv lookup_valid)
qed

section \<open>Interning is stable\<close>

lemma index_of_append_old: "index_of x xs = Some i \<Longrightarrow> index_of x (xs @ ys) = Some i"
  by (induction xs arbitrary: i) (auto split: if_splits option.splits)

lemma lookup_grows:
  assumes "lookup t s = Inr (i, t')"
  shows "\<exists>ext. atoms t' = atoms t @ ext"
  using assms by (auto simp: lookup_def split: if_splits option.splits)

lemma lookup_seq_grows: "\<exists>ext. atoms (lookup_seq t ss) = atoms t @ ext"
proof (induction ss arbitrary: t)
  case Nil
  then show ?case by simp
next
  case (Cons s ss)
  show ?case
  proof (cases "lookup t s")
    case (Inl e)
    with Cons.IH [of t] show ?thesis by simp
  next
    case (Inr r)
    then have "lookup t s = Inr (fst r, snd r)" by simp
    then obtain m1 where m1: "atoms (snd r) = atoms t @ m1"
      using lookup_grows by blast
    from Cons.IH [of "snd r"] obtain m2 where "atoms (lookup_seq (snd r) ss) = atoms (snd r) @ m2"
      by blast
    with m1 Inr show ?thesis by simp
  qed
qed

lemma lookup_seq_inv: "atom_table_inv t \<Longrightarrow> atom_table_inv (lookup_seq t ss)"
proof (induction ss arbitrary: t)
  case Nil
  then show ?case by simp
next
  case (Cons s ss)
  show ?case
  proof (cases "lookup t s")
    case (Inl e)
    with Cons show ?thesis by simp
  next
    case (Inr r)
    then have "lookup t s = Inr (fst r, snd r)" by simp
    with Cons.prems have "atom_table_inv (snd r)" by (rule lookup_inv)
    with Cons.IH [of "snd r"] Inr show ?thesis by simp
  qed
qed

lemma lookup_found:
  assumes "lookup t s = Inr (i, t')" and "s \<noteq> []"
  shows "index_of s (atoms t') = Some i \<and> length s \<le> max_atom_bytes"
proof (cases "index_of s (atoms t)")
  case None
  then have "index_of s (atoms t @ [s]) = Some (length (atoms t))"
    by (simp add: index_of_None index_of_append_new)
  with None assms show ?thesis
    by (auto simp: lookup_def split: if_splits)
next
  case (Some j)
  with assms show ?thesis
    by (auto simp: lookup_def split: if_splits)
qed

lemma lookup_later:
  assumes "index_of s (atoms t) = Some i" and "length s \<le> max_atom_bytes"
    and "atoms u = atoms t @ ext"
  shows "lookup u s = Inr (if s = [] then 0 else i, u)"
proof -
  from assms(1,3) have "index_of s (atoms u) = Some i"
    by (simp add: index_of_append_old)
  with assms(2) show ?thesis by (simp add: lookup_def)
qed

lemma lookup_stable_later:
  assumes "lookup t s = Inr (i, t')" and "atoms u = atoms t' @ ext"
  shows "lookup u s = Inr (i, u)"
proof (cases "s = []")
  case True
  with assms(1) show ?thesis by (simp add: lookup_def)
next
  case False
  from lookup_found [OF assms(1) False]
  have "index_of s (atoms t') = Some i \<and> length s \<le> max_atom_bytes" .
  with assms(2) False show ?thesis
    using lookup_later [of s t' i u ext] by simp
qed

text \<open>
  C9. Interning is stable across calls and index 0 is the empty atom. Whenever a
  \<open>lookup\<close> of a byte string returns an index, a \<open>lookup\<close> of the same bytes after any
  run of further lookups returns that index again and leaves the table as it is. In a
  table that satisfies its invariant the index returned is that of the bytes looked up, it
  is 0 only for the empty string, and two lookups, the second after any run of further
  lookups, return the same index only for the same bytes. The empty string is index 0 and
  the table is not changed by looking it up; the default-constructed atom has index 0.
\<close>

theorem lookup_stable_across_calls:
  "(lookup t s = Inr (i, t') \<longrightarrow>
      lookup (lookup_seq t' ss) s = Inr (i, lookup_seq t' ss))
   \<and> (atom_table_inv t \<and> lookup t s = Inr (i, t') \<longrightarrow>
      atom_table_inv t' \<and> i < length (atoms t') \<and> table_get t' i = s \<and> (i = 0 \<longleftrightarrow> s = []))
   \<and> (atom_table_inv t \<and> lookup t s = Inr (i, t')
        \<and> lookup (lookup_seq t' ss) s2 = Inr (j, t2) \<longrightarrow> (i = j \<longleftrightarrow> s = s2))
   \<and> lookup t [] = Inr (0, t)
   \<and> m_index atom_null = 0"
proof -
  have stable: "lookup (lookup_seq t' ss) s = Inr (i, lookup_seq t' ss)"
    if h: "lookup t s = Inr (i, t')"
  proof -
    obtain ext where "atoms (lookup_seq t' ss) = atoms t' @ ext"
      using lookup_seq_grows by blast
    with h show ?thesis by (rule lookup_stable_later)
  qed
  have first: "atom_table_inv t' \<and> i < length (atoms t') \<and> table_get t' i = s
      \<and> (i = 0 \<longleftrightarrow> s = [])"
    if inv: "atom_table_inv t" and h: "lookup t s = Inr (i, t')"
  proof -
    from inv h have inv': "atom_table_inv t'" by (rule lookup_inv)
    from inv h have v: "i < length (atoms t') \<and> atoms t' ! i = s" by (rule lookup_valid)
    from inv' have z: "atoms t' ! 0 = []"
      by (auto simp: atom_table_inv_def hd_conv_nth)
    from h have "s = [] \<Longrightarrow> i = 0" by (simp add: lookup_def)
    with inv' v z show ?thesis by (auto simp: table_get_def)
  qed
  have inj: "i = j \<longleftrightarrow> s = s2"
    if inv: "atom_table_inv t" and h: "lookup t s = Inr (i, t')"
      and h2: "lookup (lookup_seq t' ss) s2 = Inr (j, t2)"
  proof
    assume "s = s2"
    with stable [OF h] h2 show "i = j" by simp
  next
    assume ij: "i = j"
    from first [OF inv h] have inv': "atom_table_inv t'" and i: "i < length (atoms t')"
      and si: "atoms t' ! i = s"
      by (simp_all add: table_get_def)
    from inv' have invs: "atom_table_inv (lookup_seq t' ss)" by (rule lookup_seq_inv)
    obtain m1 where m1: "atoms (lookup_seq t' ss) = atoms t' @ m1"
      using lookup_seq_grows by blast
    from h2 obtain m2 where m2: "atoms t2 = atoms (lookup_seq t' ss) @ m2"
      using lookup_grows by blast
    from invs h2 have "atoms t2 ! j = s2" by (simp add: lookup_valid)
    moreover from m1 m2 i si have "atoms t2 ! i = s" by (simp add: nth_append)
    ultimately show "s = s2" using ij by simp
  qed
  from stable first inj show ?thesis
    by (simp add: lookup_def atom_null_def)
qed

text \<open>
  The calls of \<open>test_atomable\<close>: a table of capacity 10, \<open>abc\<close> looked up, then
  \<open>aaaaa\<close>, then \<open>abc\<close> again.
\<close>

theorem lookup_stable_across_calls_witness:
  "atom_table_inv (new_atom_table 10)
   \<and> lookup (new_atom_table 10) [] = Inr (0, new_atom_table 10)
   \<and> lookup (new_atom_table 10) ''abc'' = Inr (1, \<lparr>capacity = 10, atoms = [[], ''abc'']\<rparr>)
   \<and> lookup \<lparr>capacity = 10, atoms = [[], ''abc'']\<rparr> ''aaaaa''
       = Inr (2, \<lparr>capacity = 10, atoms = [[], ''abc'', ''aaaaa'']\<rparr>)
   \<and> lookup_seq \<lparr>capacity = 10, atoms = [[], ''abc'']\<rparr> [''aaaaa'']
       = \<lparr>capacity = 10, atoms = [[], ''abc'', ''aaaaa'']\<rparr>
   \<and> lookup \<lparr>capacity = 10, atoms = [[], ''abc'', ''aaaaa'']\<rparr> ''abc''
       = Inr (1, \<lparr>capacity = 10, atoms = [[], ''abc'', ''aaaaa'']\<rparr>)"
proof -
  let ?t1 = "\<lparr>capacity = 10, atoms = [[], ''abc'']\<rparr>"
  let ?t2 = "\<lparr>capacity = 10, atoms = [[], ''abc'', ''aaaaa'']\<rparr>"
  have inv: "atom_table_inv (new_atom_table 10)"
    by (rule new_atom_table_inv)
  have l1: "lookup (new_atom_table 10) ''abc'' = Inr (1, ?t1)"
    by (simp add: lookup_def new_atom_table_def max_atom_bytes_def)
  have l2: "lookup ?t1 ''aaaaa'' = Inr (2, ?t2)"
    by (simp add: lookup_def max_atom_bytes_def)
  have sq: "lookup_seq ?t1 [''aaaaa''] = ?t2"
    by (simp add: l2)
  have l3: "lookup (lookup_seq ?t1 [''aaaaa'']) ''aaaaa'' = Inr (2, ?t2)"
    unfolding sq by (simp add: lookup_def max_atom_bytes_def)
  note th = lookup_stable_across_calls [where t = "new_atom_table 10" and s = "''abc''"
      and i = 1 and t' = ?t1 and ss = "[''aaaaa'']" and ?s2.0 = "''aaaaa''" and j = 2
      and ?t2.0 = ?t2]
  from th inv l1 l3 have "lookup (lookup_seq ?t1 [''aaaaa'']) ''abc''
      = Inr (1, lookup_seq ?t1 [''aaaaa''])"
    by blast
  then have "lookup ?t2 ''abc'' = Inr (1, ?t2)"
    unfolding sq .
  with inv l1 l2 sq show ?thesis
    by (simp add: lookup_def)
qed

section \<open>Facts about C strings\<close>

lemma of_char_eq_0: "of_char c = (0::nat) \<longleftrightarrow> c = NUL"
proof -
  have "of_char c = (of_char NUL :: nat) \<longleftrightarrow> c = NUL" by (rule of_char_eq_iff)
  then show ?thesis by (simp add: NUL_def)
qed

lemma strcmp_nul_free_less:
  "nul_free xs \<Longrightarrow> nul_free ys \<Longrightarrow> strcmp xs ys < 0 \<longleftrightarrow> xs < ys"
proof (induction xs ys rule: strcmp.induct)
  case 1
  then show ?case by simp
next
  case (2 y ys)
  then have "y \<noteq> NUL" by (simp add: nul_free_def)
  then have "of_char y \<noteq> (0::nat)" by (simp add: of_char_eq_0)
  then show ?case by simp
next
  case (3 x xs)
  then show ?case by simp
next
  case (4 x xs y ys)
  then show ?case by (auto simp: nul_free_def less_char_def)
qed

lemma strcmp_nul_free_eq:
  "nul_free xs \<Longrightarrow> nul_free ys \<Longrightarrow> strcmp xs ys = 0 \<longleftrightarrow> xs = ys"
proof (induction xs ys rule: strcmp.induct)
  case 1
  then show ?case by simp
next
  case (2 y ys)
  then have "y \<noteq> NUL" by (simp add: nul_free_def)
  then have "of_char y \<noteq> (0::nat)" by (simp add: of_char_eq_0)
  then show ?case by simp
next
  case (3 x xs)
  then have "x \<noteq> NUL" by (simp add: nul_free_def)
  then have "of_char x \<noteq> (0::nat)" by (simp add: of_char_eq_0)
  then show ?case by simp
next
  case (4 x xs y ys)
  then show ?case by (auto simp: nul_free_def)
qed

lemma strcmp_swap: "strcmp ys xs = - strcmp xs ys"
  by (induction xs ys rule: strcmp.induct) auto



section \<open>Facts about masks\<close>

lemma and_3_take_bit: "(x :: 'a::len word) AND 3 = take_bit 2 x"
proof -
  have "(3 :: 'a word) = mask 2" by (simp add: mask_eq_exp_minus_1)
  then show ?thesis by (simp add: take_bit_eq_mask)
qed

lemma and_28_take_bit: "(x :: 32 word) AND 0x0fffffff = take_bit 28 x"
proof -
  have "(0x0fffffff :: 32 word) = mask 28" by (simp add: mask_eq_exp_minus_1)
  then show ?thesis by (simp add: take_bit_eq_mask)
qed

lemma sint_mod_dvd:
  fixes w :: "32 word"
  assumes "n \<le> 32"
  shows "sint w mod 2 ^ n = uint w mod 2 ^ n"
proof -
  have "sint w = signed_take_bit 31 (uint w)"
    by (simp add: sint_uint)
  have "take_bit n (sint w) = take_bit n (uint w)"
    using assms by (simp add: take_bit_signed_take_bit sint_uint)
  then show ?thesis by (simp add: take_bit_eq_mod)
qed

lemma creation_masked:
  "uint ((ucast (cre :: 32 word) :: 8 word) AND 0x03) = sint cre mod 4"
proof -
  have "uint ((ucast cre :: 8 word) AND 0x03) = take_bit 2 (uint (ucast cre :: 8 word))"
    by (simp add: and_3_take_bit unsigned_take_bit_eq)
  also have "\<dots> = take_bit 2 (take_bit 8 (uint cre))"
    by (simp add: unsigned_ucast_eq)
  also have "\<dots> = take_bit 2 (uint cre)"
    by simp
  also have "\<dots> = uint cre mod 2 ^ 2"
    by (simp only: take_bit_eq_mod)
  also have "\<dots> = sint cre mod 2 ^ 2"
    by (rule sint_mod_dvd [symmetric]) simp
  finally show ?thesis by simp
qed

lemma id_masked:
  "sint ((i :: 32 word) AND 0x0fffffff) = sint i mod 2 ^ 28"
proof -
  have "sint (take_bit 28 i) = signed_take_bit 31 (take_bit 28 (uint i))"
    by (simp add: sint_uint unsigned_take_bit_eq)
  also have "\<dots> = take_bit 28 (uint i)"
    by (simp add: signed_take_bit_take_bit)
  also have "\<dots> = uint i mod 2 ^ 28"
    by (simp add: take_bit_eq_mod)
  also have "\<dots> = sint i mod 2 ^ 28"
    by (rule sint_mod_dvd [symmetric]) simp
  finally show ?thesis by (simp add: and_28_take_bit)
qed

lemma atom_valid_string_inj:
  assumes "atom_table_inv t" "atom_valid t a" "atom_valid t b"
  shows "to_string t a = to_string t b \<longleftrightarrow> m_index a = m_index b"
  using assms
  by (auto simp: atom_table_inv_def atom_valid_def to_string_def table_get_def
      nth_eq_iff_index_eq)

section \<open>Atom equality and order\<close>

lemma c_str_nul_free: "nul_free s \<Longrightarrow> c_str s = s"
  by (induction s) (auto simp: nul_free_def c_str_def)

lemma strcmp_c_str_less: "strcmp xs ys < 0 \<longleftrightarrow> c_str xs < c_str ys"
proof (induction xs ys rule: strcmp.induct)
  case 1
  then show ?case by (simp add: c_str_def)
next
  case (2 y ys)
  have "0 < (of_char y :: nat) \<longleftrightarrow> y \<noteq> NUL"
    using of_char_eq_0 [of y] by auto
  then show ?case by (simp add: c_str_def)
next
  case (3 x xs)
  then show ?case by (simp add: c_str_def)
next
  case (4 x xs y ys)
  have nx: "x \<noteq> NUL \<Longrightarrow> NUL < x" and ny: "y \<noteq> NUL \<Longrightarrow> NUL < y"
    and lx: "\<not> x < NUL"
    using of_char_eq_0 [of x] of_char_eq_0 [of y]
    by (auto simp: less_char_def NUL_def)
  show ?case
  proof (cases "x = y")
    case True
    with "4.IH" show ?thesis by (auto simp: c_str_def)
  next
    case False
    then have "strcmp (x # xs) (y # ys) < 0 \<longleftrightarrow> x < y"
      by (simp add: less_char_def)
    with False nx ny lx show ?thesis
      by (auto simp: c_str_def)
  qed
qed

lemma strcmp_c_str_eq: "strcmp xs ys = 0 \<longleftrightarrow> c_str xs = c_str ys"
proof (induction xs ys rule: strcmp.induct)
  case 1
  then show ?case by (simp add: c_str_def)
next
  case (2 y ys)
  then show ?case using of_char_eq_0 [of y] by (auto simp: c_str_def)
next
  case (3 x xs)
  then show ?case using of_char_eq_0 [of x] by (auto simp: c_str_def)
next
  case (4 x xs y ys)
  then show ?case by (auto simp: c_str_def)
qed

text \<open>
  C8 (as amended). For every pair of atoms \<open>a\<close> and \<open>b\<close> of a table that satisfies
  its invariant: \<open>a == b\<close> holds iff their indices are equal, which holds iff their byte
  strings are equal; \<open>a < b\<close> holds iff the bytes of \<open>a\<close> before its first NUL are
  lexicographically less than the bytes of \<open>b\<close> before its first NUL; \<open>compare\<close>
  returns 0 exactly when the bytes of \<open>a\<close> and of \<open>b\<close> before their first NUL are
  equal. So for atoms without a NUL byte \<open>a < b\<close> holds iff the bytes of \<open>a\<close> are
  lexicographically less than those of \<open>b\<close>, and \<open>compare\<close> returns 0 exactly when
  \<open>a == b\<close>.
\<close>

theorem atom_eq_and_order:
  assumes "atom_table_inv t" and "atom_valid t a" and "atom_valid t b"
  shows "(atom_eq a b \<longleftrightarrow> m_index a = m_index b)
       \<and> (m_index a = m_index b \<longleftrightarrow> to_string t a = to_string t b)
       \<and> (atom_less t a b \<longleftrightarrow> c_str (to_string t a) < c_str (to_string t b))
       \<and> (atom_compare t a b = 0 \<longleftrightarrow> c_str (to_string t a) = c_str (to_string t b))
       \<and> (nul_free (to_string t a) \<and> nul_free (to_string t b) \<longrightarrow>
            (atom_less t a b \<longleftrightarrow> to_string t a < to_string t b)
            \<and> (atom_compare t a b = 0 \<longleftrightarrow> atom_eq a b))"
proof -
  have inj: "to_string t a = to_string t b \<longleftrightarrow> m_index a = m_index b"
    using assms by (rule atom_valid_string_inj)
  have less: "atom_less t a b \<longleftrightarrow> c_str (to_string t a) < c_str (to_string t b)"
    by (simp add: atom_less_def strcmp_c_str_less)
  have cmp: "atom_compare t a b = 0 \<longleftrightarrow> c_str (to_string t a) = c_str (to_string t b)"
    using inj by (auto simp: atom_compare_def strcmp_c_str_eq)
  have nf: "(atom_less t a b \<longleftrightarrow> to_string t a < to_string t b)
      \<and> (atom_compare t a b = 0 \<longleftrightarrow> atom_eq a b)"
    if "nul_free (to_string t a) \<and> nul_free (to_string t b)"
    using that less cmp inj by (simp add: c_str_nul_free atom_eq_def)
  from inj less cmp nf show ?thesis
    by (simp add: atom_eq_def)
qed

text \<open>
  The same at two atoms of a three-entry table.
\<close>

theorem atom_eq_and_order_witness:
  "atom_table_inv \<lparr>capacity = 10, atoms = [[], ''abc'', ''abd'']\<rparr>
   \<and> atom_valid \<lparr>capacity = 10, atoms = [[], ''abc'', ''abd'']\<rparr> (Atom 1)
   \<and> atom_valid \<lparr>capacity = 10, atoms = [[], ''abc'', ''abd'']\<rparr> (Atom 2)
   \<and> nul_free (to_string \<lparr>capacity = 10, atoms = [[], ''abc'', ''abd'']\<rparr> (Atom 1))
   \<and> nul_free (to_string \<lparr>capacity = 10, atoms = [[], ''abc'', ''abd'']\<rparr> (Atom 2))
   \<and> atom_less \<lparr>capacity = 10, atoms = [[], ''abc'', ''abd'']\<rparr> (Atom 1) (Atom 2)
   \<and> atom_compare \<lparr>capacity = 10, atoms = [[], ''abc'', ''abd'']\<rparr> (Atom 1) (Atom 2) \<noteq> 0
   \<and> \<not> atom_eq (Atom 1) (Atom 2)"
proof -
  let ?t = "\<lparr>capacity = 10, atoms = [[], ''abc'', ''abd'']\<rparr>"
  have h1: "atom_table_inv ?t"
    by (simp add: atom_table_inv_def max_atom_bytes_def)
  have h2: "atom_valid ?t (Atom 1)" and h3: "atom_valid ?t (Atom 2)"
    by (simp_all add: atom_valid_def)
  have h4: "nul_free (to_string ?t (Atom 1))" and h5: "nul_free (to_string ?t (Atom 2))"
    by (simp_all add: nul_free_def to_string_def table_get_def NUL_def)
  have s: "to_string ?t (Atom 1) < to_string ?t (Atom 2)"
    by (simp add: to_string_def table_get_def)
  from atom_eq_and_order [OF h1 h2 h3] h4 h5
  have "(atom_less ?t (Atom 1) (Atom 2)
          \<longleftrightarrow> to_string ?t (Atom 1) < to_string ?t (Atom 2))
      \<and> (atom_compare ?t (Atom 1) (Atom 2) = 0 \<longleftrightarrow> atom_eq (Atom 1) (Atom 2))"
    by blast
  with s have "atom_less ?t (Atom 1) (Atom 2)
      \<and> (atom_compare ?t (Atom 1) (Atom 2) = 0 \<longleftrightarrow> atom_eq (Atom 1) (Atom 2))"
    by blast
  moreover have "\<not> atom_eq (Atom 1) (Atom 2)"
    by (simp add: atom_eq_def)
  ultimately show ?thesis
    using h1 h2 h3 h4 h5 by blast
qed

text \<open>
  With all the bytes in place of the bytes before the first NUL, as the claim was first
  stated, the statement fails. Decoding the bytes
  \<open>100, 0, 2, 'a', 0\<close> in a table that holds \<open>a\<close> interns the two-byte string
  \<open>a\<close>, NUL at index 2. \<open>strcmp\<close> stops at the NUL: \<open>compare\<close> of the atoms 1
  and 2 is 0 although they are not equal, and atom 1 is not less than atom 2 although its
  bytes are lexicographically less.
\<close>

theorem atom_compare_counterexample:
  "atom_decode \<lparr>capacity = 10, atoms = [[], ''a'']\<rparr>
       [CHR ''d'', CHR 0x00, CHR 0x02, CHR ''a'', CHR 0x00] 0
     = Inr (Atom 2, 5, \<lparr>capacity = 10, atoms = [[], ''a'', [CHR ''a'', CHR 0x00]]\<rparr>)
   \<and> atom_table_inv \<lparr>capacity = 10, atoms = [[], ''a'', [CHR ''a'', CHR 0x00]]\<rparr>
   \<and> atom_compare \<lparr>capacity = 10, atoms = [[], ''a'', [CHR ''a'', CHR 0x00]]\<rparr>
         (Atom 1) (Atom 2) = 0
   \<and> \<not> atom_eq (Atom 1) (Atom 2)
   \<and> to_string \<lparr>capacity = 10, atoms = [[], ''a'', [CHR ''a'', CHR 0x00]]\<rparr> (Atom 1)
       < to_string \<lparr>capacity = 10, atoms = [[], ''a'', [CHR ''a'', CHR 0x00]]\<rparr> (Atom 2)
   \<and> \<not> atom_less \<lparr>capacity = 10, atoms = [[], ''a'', [CHR ''a'', CHR 0x00]]\<rparr>
         (Atom 1) (Atom 2)"
  by (simp add: atom_decode_def get8_def get16be_def ERL_ATOM_EXT_def ERL_SMALL_ATOM_EXT_def
      lookup_def max_atom_bytes_def atom_table_inv_def atom_compare_def atom_eq_def
      atom_less_def to_string_def table_get_def NUL_def)

section \<open>Port order\<close>

lemma atom_compare_sign:
  assumes "atom_table_inv t" and "atom_valid t a" and "atom_valid t b"
    and "nul_free (to_string t a)" and "nul_free (to_string t b)"
  shows "(atom_compare t a b < 0 \<longleftrightarrow> to_string t a < to_string t b)
       \<and> (atom_compare t a b = 0 \<longleftrightarrow> m_index a = m_index b)
       \<and> (atom_compare t a b > 0 \<longleftrightarrow> to_string t b < to_string t a)"
proof -
  have inj: "to_string t a = to_string t b \<longleftrightarrow> m_index a = m_index b"
    using assms(1-3) by (rule atom_valid_string_inj)
  have less: "strcmp (to_string t a) (to_string t b) < 0 \<longleftrightarrow> to_string t a < to_string t b"
    using assms(4,5) by (rule strcmp_nul_free_less)
  have gr: "strcmp (to_string t b) (to_string t a) < 0 \<longleftrightarrow> to_string t b < to_string t a"
    using assms(5,4) by (rule strcmp_nul_free_less)
  have eq: "strcmp (to_string t a) (to_string t b) = 0 \<longleftrightarrow> to_string t a = to_string t b"
    using assms(4,5) by (rule strcmp_nul_free_eq)
  have sw: "strcmp (to_string t b) (to_string t a) = - strcmp (to_string t a) (to_string t b)"
    by (rule strcmp_swap)
  show ?thesis
    using inj less gr eq sw by (auto simp: atom_compare_def)
qed

lemma port_less_lex:
  assumes "atom_table_inv t"
    and "atom_valid t (port_node p)" and "atom_valid t (port_node q)"
    and "nul_free (to_string t (port_node p))" and "nul_free (to_string t (port_node q))"
  shows "port_less t p q \<longleftrightarrow>
           to_string t (port_node q) < to_string t (port_node p)
           \<or> (to_string t (port_node p) = to_string t (port_node q)
               \<and> (port_id p < port_id q
                   \<or> (port_id p = port_id q \<and> port_creation p < port_creation q)))"
proof -
  note s = atom_compare_sign [OF assms]
  have inj: "to_string t (port_node p) = to_string t (port_node q)
      \<longleftrightarrow> m_index (port_node p) = m_index (port_node q)"
    using assms(1-3) by (rule atom_valid_string_inj)
  show ?thesis
    using s inj unfolding port_less_def Let_def
    by (cases "atom_compare t (port_node p) (port_node q)" "0::int" rule: linorder_cases) auto
qed

lemma port_eq_lex:
  assumes "atom_table_inv t"
    and "atom_valid t (port_node p)" and "atom_valid t (port_node q)"
  shows "port_eq p q \<longleftrightarrow>
           to_string t (port_node p) = to_string t (port_node q)
           \<and> port_id p = port_id q \<and> port_creation p = port_creation q"
  using atom_valid_string_inj [OF assms] by (auto simp: port_eq_def atom_eq_def)

text \<open>
  C10 (as amended). For ports \<open>p\<close>, \<open>q\<close>, \<open>r\<close> whose node atoms are valid in a
  table that satisfies its invariant and whose node names contain no NUL byte: exactly one
  of \<open>p < q\<close>, \<open>q < p\<close>, \<open>p == q\<close> holds, \<open>operator<\<close> is transitive, and
  for ports with equal id and creation \<open>p < q\<close> holds precisely when the node name of
  \<open>p\<close> is lexicographically greater than that of \<open>q\<close>.
\<close>

theorem port_less_nul_free:
  assumes "atom_table_inv t"
    and "atom_valid t (port_node p)" and "atom_valid t (port_node q)"
    and "atom_valid t (port_node r)"
    and "nul_free (to_string t (port_node p))" and "nul_free (to_string t (port_node q))"
    and "nul_free (to_string t (port_node r))"
  shows "((port_less t p q \<and> \<not> port_less t q p \<and> \<not> port_eq p q)
          \<or> (\<not> port_less t p q \<and> port_less t q p \<and> \<not> port_eq p q)
          \<or> (\<not> port_less t p q \<and> \<not> port_less t q p \<and> port_eq p q))
       \<and> (port_less t p q \<and> port_less t q r \<longrightarrow> port_less t p r)
       \<and> (port_id p = port_id q \<and> port_creation p = port_creation q \<longrightarrow>
            (port_less t p q \<longleftrightarrow> to_string t (port_node q) < to_string t (port_node p)))"
proof -
  have pq: "port_less t p q \<longleftrightarrow>
           to_string t (port_node q) < to_string t (port_node p)
           \<or> (to_string t (port_node p) = to_string t (port_node q)
               \<and> (port_id p < port_id q
                   \<or> (port_id p = port_id q \<and> port_creation p < port_creation q)))"
    using assms(1,2,3,5,6) by (rule port_less_lex)
  have qp: "port_less t q p \<longleftrightarrow>
           to_string t (port_node p) < to_string t (port_node q)
           \<or> (to_string t (port_node q) = to_string t (port_node p)
               \<and> (port_id q < port_id p
                   \<or> (port_id q = port_id p \<and> port_creation q < port_creation p)))"
    using assms(1,3,2,6,5) by (rule port_less_lex)
  have qr: "port_less t q r \<longleftrightarrow>
           to_string t (port_node r) < to_string t (port_node q)
           \<or> (to_string t (port_node q) = to_string t (port_node r)
               \<and> (port_id q < port_id r
                   \<or> (port_id q = port_id r \<and> port_creation q < port_creation r)))"
    using assms(1,3,4,6,7) by (rule port_less_lex)
  have pr: "port_less t p r \<longleftrightarrow>
           to_string t (port_node r) < to_string t (port_node p)
           \<or> (to_string t (port_node p) = to_string t (port_node r)
               \<and> (port_id p < port_id r
                   \<or> (port_id p = port_id r \<and> port_creation p < port_creation r)))"
    using assms(1,2,4,5,7) by (rule port_less_lex)
  have e: "port_eq p q \<longleftrightarrow>
           to_string t (port_node p) = to_string t (port_node q)
           \<and> port_id p = port_id q \<and> port_creation p = port_creation q"
    using assms(1,2,3) by (rule port_eq_lex)
  let ?sp = "to_string t (port_node p)" and ?sq = "to_string t (port_node q)"
    and ?sr = "to_string t (port_node r)"
  have tri: "(port_less t p q \<and> \<not> port_less t q p \<and> \<not> port_eq p q)
          \<or> (\<not> port_less t p q \<and> port_less t q p \<and> \<not> port_eq p q)
          \<or> (\<not> port_less t p q \<and> \<not> port_less t q p \<and> port_eq p q)"
  proof (cases ?sq ?sp rule: linorder_cases)
    case less
    then have "\<not> ?sp < ?sq" "?sp \<noteq> ?sq" "?sq \<noteq> ?sp" by simp_all
    with less show ?thesis by (simp add: pq qp e)
  next
    case greater
    then have "\<not> ?sq < ?sp" "?sp \<noteq> ?sq" "?sq \<noteq> ?sp" by simp_all
    with greater show ?thesis by (simp add: pq qp e)
  next
    case equal
    then have "\<not> ?sq < ?sp" "\<not> ?sp < ?sq" "?sp = ?sq" by simp_all
    then show ?thesis by (simp add: pq qp e) linarith
  qed
  have trans: "port_less t p q \<and> port_less t q r \<longrightarrow> port_less t p r"
  proof
    assume h: "port_less t p q \<and> port_less t q r"
    show "port_less t p r"
    proof (cases "?sq < ?sp")
      case True
      from h qr have "?sr < ?sq \<or> ?sq = ?sr" by blast
      with True have "?sr < ?sp" by auto
      then show ?thesis by (simp add: pr)
    next
      case False
      with h pq have pq': "?sp = ?sq" "port_id p < port_id q
          \<or> (port_id p = port_id q \<and> port_creation p < port_creation q)"
        by blast+
      show ?thesis
      proof (cases "?sr < ?sq")
        case True
        with pq' show ?thesis by (simp add: pr)
      next
        case False
        with h qr have qr': "?sq = ?sr" "port_id q < port_id r
            \<or> (port_id q = port_id r \<and> port_creation q < port_creation r)"
          by blast+
        from pq'(2) qr'(2) have "port_id p < port_id r
            \<or> (port_id p = port_id r \<and> port_creation p < port_creation r)"
          by linarith
        with pq'(1) qr'(1) show ?thesis by (simp add: pr)
      qed
    qed
  qed
  have node: "port_id p = port_id q \<and> port_creation p = port_creation q \<longrightarrow>
            (port_less t p q \<longleftrightarrow> to_string t (port_node q) < to_string t (port_node p))"
    unfolding pq by auto
  from tri trans node show ?thesis by blast
qed

text \<open>The same at two ports on the nodes \<open>a@h\<close> and \<open>b@h\<close>.\<close>

theorem port_less_nul_free_witness:
  "atom_table_inv \<lparr>capacity = 10, atoms = [[], ''a@h'', ''b@h'']\<rparr>
   \<and> port_of_atom \<lparr>capacity = 10, atoms = [[], ''a@h'', ''b@h'']\<rparr> (Atom 1) 1 0
       = Inr (port_init (Atom 1) 1 0)
   \<and> port_of_atom \<lparr>capacity = 10, atoms = [[], ''a@h'', ''b@h'']\<rparr> (Atom 2) 1 0
       = Inr (port_init (Atom 2) 1 0)
   \<and> nul_free ''a@h'' \<and> nul_free ''b@h''
   \<and> port_less \<lparr>capacity = 10, atoms = [[], ''a@h'', ''b@h'']\<rparr>
         (port_init (Atom 2) 1 0) (port_init (Atom 1) 1 0)
   \<and> \<not> port_less \<lparr>capacity = 10, atoms = [[], ''a@h'', ''b@h'']\<rparr>
         (port_init (Atom 1) 1 0) (port_init (Atom 2) 1 0)
   \<and> \<not> port_eq (port_init (Atom 1) 1 0) (port_init (Atom 2) 1 0)"
proof -
  let ?t = "\<lparr>capacity = 10, atoms = [[], ''a@h'', ''b@h'']\<rparr>"
  let ?p = "port_init (Atom 1) 1 0" and ?q = "port_init (Atom 2) 1 0"
  have h1: "atom_table_inv ?t"
    by (simp add: atom_table_inv_def max_atom_bytes_def)
  have np: "port_node ?p = Atom 1" and nq: "port_node ?q = Atom 2"
    by (simp_all add: port_node_def port_init_def)
  have h2: "atom_valid ?t (port_node ?p)" and h3: "atom_valid ?t (port_node ?q)"
    by (simp_all add: atom_valid_def port_node_def port_init_def)
  have sp: "to_string ?t (port_node ?p) = ''a@h''" and sq: "to_string ?t (port_node ?q) = ''b@h''"
    by (simp_all add: port_node_def port_init_def to_string_def table_get_def)
  have n1: "nul_free ''a@h''" and n2: "nul_free ''b@h''"
    by (simp_all add: nul_free_def NUL_def)
  have h4: "nul_free (to_string ?t (port_node ?p))" and h5: "nul_free (to_string ?t (port_node ?q))"
    by (simp_all add: port_node_def port_init_def to_string_def table_get_def nul_free_def
        NUL_def)
  have c1: "port_of_atom ?t (Atom 1) 1 0 = Inr ?p" and c2: "port_of_atom ?t (Atom 2) 1 0 = Inr ?q"
    by (simp_all add: port_of_atom_def check_node_length_def atom_size_def to_string_def
        table_get_def MAXNODELEN_def)
  have lt: "to_string ?t (port_node ?p) < to_string ?t (port_node ?q)"
    by (simp add: port_node_def port_init_def to_string_def table_get_def)
  have ids: "port_id ?q = port_id ?p \<and> port_creation ?q = port_creation ?p"
    by (simp add: port_id_def port_creation_def port_init_def)
  from port_less_nul_free [OF h1 h3 h2 h2 h5 h4 h4] lt ids
  have "port_less ?t ?q ?p \<and> \<not> port_less ?t ?p ?q \<and> \<not> port_eq ?q ?p"
    by blast
  then have "port_less ?t ?q ?p \<and> \<not> port_less ?t ?p ?q \<and> \<not> port_eq ?p ?q"
    by (auto simp: port_eq_def atom_eq_def)
  with h1 c1 c2 n1 n2 show ?thesis by simp
qed

text \<open>
  Without the condition on NUL bytes the statement fails: for the node names \<open>a@h\<close>
  and \<open>a@h\<close> followed by a NUL byte, and equal id and creation, none of \<open>p < q\<close>, \<open>q < p\<close> and
  \<open>p == q\<close> holds, although the first name is lexicographically less than the second.
\<close>

theorem port_less_counterexample:
  "atom_table_inv \<lparr>capacity = 10, atoms = [[], ''a@h'', [CHR ''a'', CHR ''@'', CHR ''h'', CHR 0x00]]\<rparr>
   \<and> port_of_atom \<lparr>capacity = 10, atoms = [[], ''a@h'', [CHR ''a'', CHR ''@'', CHR ''h'', CHR 0x00]]\<rparr>
         (Atom 1) 1 0
       = Inr (Some \<lparr>blob_creation = 0, blob_id = 1, blob_node = Atom 1\<rparr>)
   \<and> port_of_atom \<lparr>capacity = 10, atoms = [[], ''a@h'', [CHR ''a'', CHR ''@'', CHR ''h'', CHR 0x00]]\<rparr>
         (Atom 2) 1 0
       = Inr (Some \<lparr>blob_creation = 0, blob_id = 1, blob_node = Atom 2\<rparr>)
   \<and> \<not> port_less \<lparr>capacity = 10, atoms = [[], ''a@h'', [CHR ''a'', CHR ''@'', CHR ''h'', CHR 0x00]]\<rparr>
         (Some \<lparr>blob_creation = 0, blob_id = 1, blob_node = Atom 1\<rparr>)
         (Some \<lparr>blob_creation = 0, blob_id = 1, blob_node = Atom 2\<rparr>)
   \<and> \<not> port_less \<lparr>capacity = 10, atoms = [[], ''a@h'', [CHR ''a'', CHR ''@'', CHR ''h'', CHR 0x00]]\<rparr>
         (Some \<lparr>blob_creation = 0, blob_id = 1, blob_node = Atom 2\<rparr>)
         (Some \<lparr>blob_creation = 0, blob_id = 1, blob_node = Atom 1\<rparr>)
   \<and> \<not> port_eq (Some \<lparr>blob_creation = 0, blob_id = 1, blob_node = Atom 1\<rparr>)
         (Some \<lparr>blob_creation = 0, blob_id = 1, blob_node = Atom 2\<rparr>)
   \<and> to_string \<lparr>capacity = 10, atoms = [[], ''a@h'', [CHR ''a'', CHR ''@'', CHR ''h'', CHR 0x00]]\<rparr> (Atom 1)
       < to_string \<lparr>capacity = 10, atoms = [[], ''a@h'', [CHR ''a'', CHR ''@'', CHR ''h'', CHR 0x00]]\<rparr> (Atom 2)"
  by (simp add: atom_table_inv_def max_atom_bytes_def port_of_atom_def check_node_length_def
      atom_size_def to_string_def table_get_def MAXNODELEN_def port_init_def port_less_def
      port_eq_def atom_compare_def atom_eq_def port_node_def port_id_def port_creation_def
      NUL_def)

section \<open>Node names\<close>

text \<open>What \<open>make_node_name\<close> accepts.\<close>

lemma string_find_0: "string_find s c = 0 \<longleftrightarrow> s \<noteq> [] \<and> hd s = c"
  by (cases s) (auto simp: string_find_def npos_def split: option.splits)

lemma make_node_name_accepts_iff:
  "(\<exists>r. make_node_name t s = Inr r) \<longleftrightarrow>
     s \<noteq> [] \<and> hd s \<noteq> CHR ''@'' \<and> length s \<le> MAXNODELEN \<and> (\<exists>r. lookup t s = Inr r)"
  by (cases "lookup t s")
     (auto simp: make_node_name_def string_find_0 check_node_length_def atom_of_string_def
        split: sum.splits)

text \<open>
  C4. \<open>make_node_name\<close> is to return an atom exactly for the strings of length in
  [1, MAXNODELEN] that contain the separator \<open>@\<close>, and to fail with a bad-argument error
  for the others. The code does not: \<open>abc\<close>, which has no separator, is made an atom
  (of a name that breaks the node-name invariant), and \<open>@abc\<close>, which has one, is
  refused; \<open>a@bc\<close> is accepted.
\<close>

theorem make_node_name_without_separator:
  "make_node_name (new_atom_table 10) ''abc''
     = Inr (Atom 1, \<lparr>capacity = 10, atoms = [[], ''abc'']\<rparr>)
   \<and> \<not> node_name_ok ''abc''
   \<and> make_node_name (new_atom_table 10) ''@abc'' = Inl (Err_bad_argument ''Invalid node name'')
   \<and> make_node_name (new_atom_table 10) ''a@bc''
     = Inr (Atom 1, \<lparr>capacity = 10, atoms = [[], ''a@bc'']\<rparr>)"
  by (simp add: make_node_name_def string_find_def npos_def check_node_length_def
      MAXNODELEN_def atom_of_string_def lookup_def new_atom_table_def max_atom_bytes_def
      node_name_ok_def)

section \<open>Masking of port and pid fields\<close>

text \<open>
  C6. For every port constructed from components (node, id, creation), by either
  constructor, \<open>creation()\<close> is the creation given modulo 4 and \<open>id()\<close> is the id
  given modulo \<open>2^28\<close>; the same holds for a pid. The components are C \<open>int\<close>s, read
  in two's complement.
\<close>

theorem port_fields_masked:
  "(port_of_atom t node i cre = Inr p \<longrightarrow>
      port_creation p = sint cre mod 4 \<and> port_id p = sint i mod 2 ^ 28)
   \<and> (port_of_cstr t2 s i cre = Inr (p', t') \<longrightarrow>
      port_creation p' = sint cre mod 4 \<and> port_id p' = sint i mod 2 ^ 28)
   \<and> epid_creation (epid_init node i serial cre) = sint cre mod 4
   \<and> epid_id (epid_init node i serial cre) = sint i mod 2 ^ 28"
proof -
  have init: "port_creation (port_init n i cre8) = uint (cre8 AND 0x03)
      \<and> port_id (port_init n i cre8) = sint (i AND 0x0fffffff)" for n cre8
    by (simp add: port_creation_def port_id_def port_init_def)
  have a: "port_creation p = sint cre mod 4 \<and> port_id p = sint i mod 2 ^ 28"
    if "port_of_atom t node i cre = Inr p"
  proof -
    from that have "p = port_init node i (ucast cre)"
      by (auto simp: port_of_atom_def split: sum.splits)
    then show ?thesis
      by (simp only: init creation_masked id_masked)
  qed
  have b: "port_creation p' = sint cre mod 4 \<and> port_id p' = sint i mod 2 ^ 28"
    if "port_of_cstr t2 s i cre = Inr (p', t')"
  proof -
    from that obtain n where "p' = port_init n i (ucast cre)"
      by (auto simp: port_of_cstr_def Let_def split: sum.splits)
    then show ?thesis
      by (simp only: init creation_masked id_masked)
  qed
  have c: "epid_creation (epid_init node i serial cre) = sint cre mod 4"
  proof -
    have "uint (word_of_int (sint cre mod 4) :: 8 word) = take_bit 8 (sint cre mod 4)"
      by (simp add: uint_word_of_int_eq)
    also have "\<dots> = sint cre mod 4"
    proof -
      have "0 \<le> sint cre mod 4" "sint cre mod 4 < 2 ^ 8"
        by (simp_all add: pos_mod_bound [THEN less_trans])
      then show ?thesis by (simp only: take_bit_int_eq_self)
    qed
    finally show ?thesis by (simp add: epid_creation_def epid_init_def)
  qed
  have d: "epid_id (epid_init node i serial cre) = sint i mod 2 ^ 28"
    using id_masked [of i] by (simp add: epid_id_def epid_init_def and_28_take_bit)
  from a b c d show ?thesis by blast
qed

text \<open>Constructing with creation 4 yields \<open>creation() == 0\<close>.\<close>

theorem port_fields_masked_witness:
  "port_of_atom \<lparr>capacity = 10, atoms = [[], ''abc@fc12'']\<rparr> (Atom 1) 1 4
     = Inr (Some \<lparr>blob_creation = 0, blob_id = 1, blob_node = Atom 1\<rparr>)
   \<and> port_creation (Some \<lparr>blob_creation = 0, blob_id = 1, blob_node = Atom 1\<rparr>) = 0
   \<and> port_of_cstr (new_atom_table 10) ''abc@fc12'' 1 4
     = Inr (Some \<lparr>blob_creation = 0, blob_id = 1, blob_node = Atom 1\<rparr>,
            \<lparr>capacity = 10, atoms = [[], ''abc@fc12'']\<rparr>)"
proof -
  let ?t = "\<lparr>capacity = 10, atoms = [[], ''abc@fc12'']\<rparr>"
  let ?p = "Some \<lparr>blob_creation = 0, blob_id = 1, blob_node = Atom 1\<rparr>"
  have c1: "port_of_atom ?t (Atom 1) 1 4 = Inr ?p"
    by (simp add: port_of_atom_def check_node_length_def atom_size_def to_string_def
        table_get_def MAXNODELEN_def port_init_def)
  have c2: "port_of_cstr (new_atom_table 10) ''abc@fc12'' 1 4 = Inr (?p, ?t)"
    by (simp add: port_of_cstr_def strlen_def NUL_def check_node_length_def MAXNODELEN_def
        atom_of_string_def lookup_def new_atom_table_def max_atom_bytes_def port_init_def)
  from port_fields_masked [of ?t "Atom 1" 1 4 ?p "new_atom_table 10" "''abc@fc12''" ?p ?t] c1 c2
  have "port_creation ?p = sint (4 :: 32 word) mod 4" by blast
  with c1 c2 show ?thesis by simp
qed

section \<open>Atom codec round trip\<close>

lemma length_atom_ext_form: "length (atom_ext_form t a) = atom_encode_size t a"
  by (simp add: atom_ext_form_def atom_encode_size_def atom_size_def)

lemma write3:
  assumes "idx + 3 \<le> length buf"
  shows "buf[idx := x, idx + 1 := y, idx + 2 := z]
           = take idx buf @ [x, y, z] @ drop (idx + 3) buf"
proof (rule nth_equalityI)
  show "length (buf[idx := x, idx + 1 := y, idx + 2 := z])
      = length (take idx buf @ [x, y, z] @ drop (idx + 3) buf)"
    using assms by simp
next
  fix i
  assume "i < length (buf[idx := x, idx + 1 := y, idx + 2 := z])"
  then have i: "i < length buf" by simp
  consider "i < idx" | "i = idx" | "i = idx + 1" | "i = idx + 2" | "idx + 3 \<le> i"
    by linarith
  then show "buf[idx := x, idx + 1 := y, idx + 2 := z] ! i
      = (take idx buf @ [x, y, z] @ drop (idx + 3) buf) ! i"
  proof cases
    case 1
    with assms i show ?thesis by (simp add: nth_append)
  next
    case 2
    with assms i show ?thesis by (simp add: nth_append)
  next
    case 3
    with assms i show ?thesis by (simp add: nth_append)
  next
    case 4
    with assms i show ?thesis by (simp add: nth_append)
  next
    case 5
    then obtain k where k: "i = idx + 3 + k" using le_Suc_ex by blast
    with assms i show ?thesis
      by (simp add: nth_append add.commute add.left_commute)
  qed
qed

lemma atom_encode_result:
  assumes "atom_size t a \<le> MAXATOMLEN" and "idx + atom_encode_size t a \<le> length buf"
  shows "atom_encode t a buf idx
     = Inr (take idx buf @ atom_ext_form t a @ drop (idx + atom_encode_size t a) buf,
            idx + atom_encode_size t a)"
proof -
  let ?n = "atom_size t a"
  from assms(1) have m: "min MAXATOMLEN ?n = ?n" by simp
  from assms(1) have small: "?n mod 65536 div 256 = ?n div 256"
    by (simp add: MAXATOMLEN_def)
  from assms(2) have b: "idx + 3 + ?n \<le> length buf"
    by (simp add: atom_encode_size_def)
  have tk: "take ?n (to_string t a) = to_string t a"
    by (simp add: atom_size_def)
  let ?b2 = "buf[idx := char_of ERL_ATOM_EXT, idx + 1 := char_of (?n div 256),
      idx + 2 := char_of ?n]"
  have w: "?b2 = take idx buf @ [char_of ERL_ATOM_EXT, char_of (?n div 256), char_of ?n]
      @ drop (idx + 3) buf"
    using b by (intro write3) simp
  have p1: "put8 buf idx ERL_ATOM_EXT = Inr (buf[idx := char_of ERL_ATOM_EXT], idx + 1)"
    using b by (simp add: put8_def)
  have p2: "put16be (buf[idx := char_of ERL_ATOM_EXT]) (idx + 1) ?n = Inr (?b2, idx + 3)"
    using b by (simp add: put16be_def small numeral_3_eq_3 add.commute)
  have p3: "memmove ?b2 (idx + 3) (to_string t a)
      = Inr (take (idx + 3) ?b2 @ to_string t a @ drop (idx + 3 + ?n) ?b2)"
    using b by (simp add: memmove_def atom_size_def)
  have t3: "take (idx + 3) ?b2
      = take idx buf @ [char_of ERL_ATOM_EXT, char_of (?n div 256), char_of ?n]"
    using b unfolding w by simp
  have d3: "drop (idx + 3 + ?n) ?b2 = drop (idx + 3 + ?n) buf"
    using b unfolding w by (simp add: numeral_3_eq_3 add.commute)
  show ?thesis
    unfolding atom_encode_def Let_def m tk p1 sum.case prod.case p2 p3 t3 d3
    by (simp add: atom_ext_form_def atom_encode_size_def add.commute add.left_commute)
qed

lemma atom_decode_ext_form:
  assumes "atom_table_inv t" and "atom_valid t a"
  shows "atom_decode t (pre @ atom_ext_form t a @ post) (length pre)
     = Inr (a, length pre + atom_encode_size t a, t)"
proof -
  let ?n = "atom_size t a"
  let ?buf = "pre @ atom_ext_form t a @ post"
  from assms have n: "?n \<le> 255"
    by (auto simp: atom_table_inv_def atom_valid_def atom_size_def to_string_def
        table_get_def list_all_length max_atom_bytes_def)
  have g1: "get8 ?buf (length pre) = Inr (ERL_ATOM_EXT, length pre + 1)"
    by (simp add: get8_def atom_ext_form_def nth_append ERL_ATOM_EXT_def)
  have g2: "get16be ?buf (length pre + 1) = Inr (?n, length pre + 1 + 2)"
    using n by (simp add: get16be_def atom_ext_form_def nth_append)
  have bytes: "take ?n (drop (length pre + 1 + 2) ?buf) = to_string t a"
    by (simp add: atom_ext_form_def atom_size_def)
  have len: "(length ?buf < length pre + 1 + 2 + ?n) = False"
    by (simp add: atom_ext_form_def atom_size_def)
  from assms have lk: "lookup t (to_string t a) = Inr (m_index a, t)"
    by (simp add: to_string_def table_get_def atom_valid_def lookup_interned)
  have fin: "length pre + (length pre + 1 + 2 + ?n - length pre)
      = length pre + atom_encode_size t a"
    by (simp add: atom_encode_size_def)
  have "atom_decode t ?buf (length pre) = Inr (Atom (m_index a), length pre + atom_encode_size t a, t)"
    unfolding atom_decode_def g1 sum.case prod.case
    by (simp only: refl if_True g2 sum.case prod.case len if_False bytes lk fin)
  then show ?thesis by simp
qed

text \<open>
  C7. For every interned atom \<open>a\<close> and every buffer with room for
  \<open>encode_size(a)\<close> bytes at \<open>idx\<close>: \<open>encode\<close> writes the \<open>ATOM_EXT\<close> form of
  \<open>a\<close> at \<open>idx\<close> and nothing else, that form is \<open>encode_size(a) = 3 + length(a)\<close>
  bytes long, the cursor is advanced by exactly the bytes written, and the decode
  constructor applied to the bytes written yields \<open>a\<close>, with the cursor past exactly those
  bytes and the table as it was.
\<close>

theorem atom_encode_decode_roundtrip:
  assumes "atom_table_inv t" and "atom_valid t a"
    and "idx + atom_encode_size t a \<le> length buf"
  shows "atom_encode t a buf idx
           = Inr (take idx buf @ atom_ext_form t a @ drop (idx + atom_encode_size t a) buf,
                  idx + atom_encode_size t a)
       \<and> length (atom_ext_form t a) = atom_encode_size t a
       \<and> atom_encode_size t a = 3 + atom_size t a
       \<and> atom_decode t
            (take idx buf @ atom_ext_form t a @ drop (idx + atom_encode_size t a) buf) idx
           = Inr (a, idx + atom_encode_size t a, t)"
proof -
  from assms(1,2) have "atom_size t a \<le> max_atom_bytes"
    by (auto simp: atom_table_inv_def atom_valid_def atom_size_def to_string_def
        table_get_def list_all_length)
  then have n: "atom_size t a \<le> MAXATOMLEN"
    by (simp add: max_atom_bytes_def MAXATOMLEN_def)
  have enc: "atom_encode t a buf idx
           = Inr (take idx buf @ atom_ext_form t a @ drop (idx + atom_encode_size t a) buf,
                  idx + atom_encode_size t a)"
    using n assms(3) by (rule atom_encode_result)
  from assms(3) have l: "length (take idx buf) = idx" by simp
  have dec: "atom_decode t
            (take idx buf @ atom_ext_form t a @ drop (idx + atom_encode_size t a) buf)
            (length (take idx buf))
           = Inr (a, length (take idx buf) + atom_encode_size t a, t)"
    using assms(1,2) by (rule atom_decode_ext_form)
  from enc dec show ?thesis
    unfolding l by (simp add: length_atom_ext_form atom_encode_size_def)
qed

text \<open>The atom \<open>abc\<close> written at offset 1 of a buffer of 8 bytes, and read back.\<close>

theorem atom_encode_decode_roundtrip_witness:
  "atom_table_inv \<lparr>capacity = 10, atoms = [[], ''abc'']\<rparr>
   \<and> atom_valid \<lparr>capacity = 10, atoms = [[], ''abc'']\<rparr> (Atom 1)
   \<and> atom_encode_size \<lparr>capacity = 10, atoms = [[], ''abc'']\<rparr> (Atom 1) = 6
   \<and> atom_encode \<lparr>capacity = 10, atoms = [[], ''abc'']\<rparr> (Atom 1) ''........'' 1
       = Inr ([CHR ''.'', CHR ''d'', CHR 0x00, CHR 0x03, CHR ''a'', CHR ''b'', CHR ''c'', CHR ''.''], 7)
   \<and> atom_decode \<lparr>capacity = 10, atoms = [[], ''abc'']\<rparr>
         [CHR ''.'', CHR ''d'', CHR 0x00, CHR 0x03, CHR ''a'', CHR ''b'', CHR ''c'', CHR ''.''] 1
       = Inr (Atom 1, 7, \<lparr>capacity = 10, atoms = [[], ''abc'']\<rparr>)"
proof -
  let ?t = "\<lparr>capacity = 10, atoms = [[], ''abc'']\<rparr>"
  have h1: "atom_table_inv ?t"
    by (simp add: atom_table_inv_def max_atom_bytes_def)
  have h2: "atom_valid ?t (Atom 1)"
    by (simp add: atom_valid_def)
  have sz: "atom_encode_size ?t (Atom 1) = 6"
    by (simp add: atom_encode_size_def atom_size_def to_string_def table_get_def)
  have h3: "1 + atom_encode_size ?t (Atom 1) \<le> length ''........''"
    unfolding sz by simp
  have form: "atom_ext_form ?t (Atom 1) = [CHR ''d'', CHR 0x00, CHR 0x03, CHR ''a'', CHR ''b'', CHR ''c'']"
    by (simp add: atom_ext_form_def atom_size_def to_string_def table_get_def ERL_ATOM_EXT_def
        char_of_eq_iff take_bit_eq_mod)
  note r = atom_encode_decode_roundtrip [OF h1 h2 h3, unfolded sz form]
  from r h1 h2 sz show ?thesis by simp
qed

section \<open>Closing a mailbox\<close>

lemma send_exit_loop_calls:
  "node_calls (send_exit_loop self reason ps nd)
     = node_calls nd @ map (\<lambda>p. Send_exit self p reason) ps"
proof (induction ps arbitrary: nd)
  case Nil
  then show ?case by simp
next
  case (Cons p ps)
  show ?case
    by (cases "node_throws nd (Send_exit self p reason)")
       (simp_all add: send_exit_def Cons.IH)
qed

lemma send_monitor_exit_loop_calls:
  "node_calls (send_monitor_exit_loop self reason rps nd)
     = node_calls nd @ map (\<lambda>rp. Send_monitor_exit self (snd rp) (fst rp) reason) rps"
proof (induction rps arbitrary: nd)
  case Nil
  then show ?case by simp
next
  case (Cons rp rps)
  show ?case
    by (cases "node_throws nd (Send_monitor_exit self (snd rp) (fst rp) reason)")
       (simp_all add: send_monitor_exit_def Cons.IH)
qed

lemma count_list_map_distinct:
  assumes "distinct xs" and "inj f"
  shows "count_list (map f xs) (f x) = (if x \<in> set xs then 1 else 0)"
  using assms(1)
proof (induction xs)
  case Nil
  then show ?case by simp
next
  case (Cons y ys)
  with assms(2) show ?case by (auto simp: inj_eq)
qed

lemma count_list_map_absent:
  "(\<And>y. y \<in> set xs \<Longrightarrow> f y \<noteq> c) \<Longrightarrow> count_list (map f xs) c = 0"
  by (induction xs) auto

lemma count_monitor_calls:
  assumes "distinct (map fst m)"
  shows "count_list (map (\<lambda>rp. Send_monitor_exit self (snd rp) (fst rp) reason) m)
           (Send_monitor_exit self p r reason)
         = (if (r, p) \<in> set m then 1 else 0)"
  using assms
proof (induction m)
  case Nil
  then show ?case by simp
next
  case (Cons kv m)
  then have IH: "count_list (map (\<lambda>rp. Send_monitor_exit self (snd rp) (fst rp) reason) m)
           (Send_monitor_exit self p r reason)
         = (if (r, p) \<in> set m then 1 else 0)"
    by simp
  from Cons.prems have notin: "fst kv \<notin> fst ` set m" by simp
  show ?case
  proof (cases "kv = (r, p)")
    case True
    with notin have "(r, p) \<notin> set m" by force
    with True IH show ?thesis by simp
  next
    case False
    then have "\<not> (snd kv = p \<and> fst kv = r)" by (cases kv) auto
    with False IH show ?thesis by auto
  qed
qed

lemma break_links_result:
  "break_links reason (nd, mb)
     = (send_monitor_exit_loop (m_self mb) reason (m_monitors mb)
          (send_exit_loop (m_self mb) reason (m_links mb) nd),
        mb\<lparr>m_links := [], m_monitors := []\<rparr>)"
  by (cases "m_links mb = []"; cases "m_monitors mb = []")
     (simp_all add: break_links_def Let_def)

text \<open>
  C3. For every mailbox with links \<open>L\<close> and monitors \<open>M\<close> (a set and a map: no pid
  and no reference twice) and every node, whichever of its sends throw:
  \<open>close(reason, dereg)\<close> calls the node with \<open>close_mailbox\<close> if \<open>dereg\<close>, then
  with one \<open>send_exit\<close> carrying \<open>reason\<close> for each pid of \<open>L\<close> and one
  \<open>send_monitor_exit\<close> carrying \<open>reason\<close> for each entry of \<open>M\<close>, and with nothing
  else; among these calls each \<open>EXIT\<close> to a linked pid and each \<open>MONITOR_P_EXIT\<close> for
  a monitor entry occurs exactly once, and none to anyone else; afterwards the links and the
  monitors are empty and the name is the empty atom.
\<close>

theorem close_broadcast:
  assumes "mailbox_inv mb"
  shows "node_calls (fst (close now reason dereg (nd, mb)))
           = node_calls nd
             @ (if dereg then [Close_mailbox (m_self mb)] else [])
             @ map (\<lambda>p. Send_exit (m_self mb) p reason) (m_links mb)
             @ map (\<lambda>rp. Send_monitor_exit (m_self mb) (snd rp) (fst rp) reason) (m_monitors mb)
       \<and> count_list (drop (length (node_calls nd))
                       (node_calls (fst (close now reason dereg (nd, mb)))))
                    (Send_exit (m_self mb) p reason)
           = (if p \<in> set (m_links mb) then 1 else 0)
       \<and> count_list (drop (length (node_calls nd))
                       (node_calls (fst (close now reason dereg (nd, mb)))))
                    (Send_monitor_exit (m_self mb) p r reason)
           = (if (r, p) \<in> set (m_monitors mb) then 1 else 0)
       \<and> m_links (snd (close now reason dereg (nd, mb))) = []
       \<and> m_monitors (snd (close now reason dereg (nd, mb))) = []
       \<and> m_name (snd (close now reason dereg (nd, mb))) = atom_null
       \<and> atom_empty (m_name (snd (close now reason dereg (nd, mb))))"
proof -
  let ?R = "close now reason dereg (nd, mb)"
  let ?ex = "map (\<lambda>p. Send_exit (m_self mb) p reason) (m_links mb)"
  let ?mon = "map (\<lambda>rp. Send_monitor_exit (m_self mb) (snd rp) (fst rp) reason) (m_monitors mb)"
  let ?cl = "if dereg then [Close_mailbox (m_self mb)] else []"
  have calls: "node_calls (fst ?R) = node_calls nd @ ?cl @ ?ex @ ?mon"
    by (simp add: close_def Let_def break_links_result send_exit_loop_calls
        send_monitor_exit_loop_calls close_mailbox_def queue_reset_def)
  have state: "m_links (snd ?R) = [] \<and> m_monitors (snd ?R) = [] \<and> m_name (snd ?R) = atom_null"
    by (simp add: close_def Let_def break_links_result)
  from assms have d1: "distinct (m_links mb)" and d2: "distinct (map fst (m_monitors mb))"
    by (simp_all add: mailbox_inv_def)
  have inj: "inj (\<lambda>p. Send_exit (m_self mb) p reason)"
    by (simp add: inj_def)
  have c_cl: "count_list ?cl c = 0" if "c \<noteq> Close_mailbox (m_self mb)" for c
    using that by simp
  have e1: "count_list ?ex (Send_exit (m_self mb) p reason)
      = (if p \<in> set (m_links mb) then 1 else 0)"
    using d1 inj by (rule count_list_map_distinct)
  have e2: "count_list ?mon (Send_exit (m_self mb) p reason) = 0"
    by (rule count_list_map_absent) simp
  have m1: "count_list ?ex (Send_monitor_exit (m_self mb) p r reason) = 0"
    by (rule count_list_map_absent) simp
  have m2: "count_list ?mon (Send_monitor_exit (m_self mb) p r reason)
      = (if (r, p) \<in> set (m_monitors mb) then 1 else 0)"
    using d2 by (rule count_monitor_calls)
  have dr: "drop (length (node_calls nd)) (node_calls (fst ?R)) = ?cl @ ?ex @ ?mon"
    by (simp add: calls)
  have cnt1: "count_list (drop (length (node_calls nd)) (node_calls (fst ?R)))
      (Send_exit (m_self mb) p reason) = (if p \<in> set (m_links mb) then 1 else 0)"
    unfolding dr count_list_append e1 e2 by simp
  have cnt2: "count_list (drop (length (node_calls nd)) (node_calls (fst ?R)))
      (Send_monitor_exit (m_self mb) p r reason)
      = (if (r, p) \<in> set (m_monitors mb) then 1 else 0)"
    unfolding dr count_list_append m1 m2 by simp
  from calls cnt1 cnt2 state show ?thesis
    by (simp add: atom_empty_def atom_null_def)
qed

text \<open>
  A mailbox linked to the pids 2 and 3 and monitored by pid 4 under the reference 7, on a
  node whose send to pid 2 throws.
\<close>

theorem close_broadcast_witness:
  "mailbox_inv (\<lparr>m_self = 1::nat, m_name = Atom 5, m_links = [2, 3],
       m_monitors = [(7::nat, 4)], m_queue = [], m_time_freed = 0\<rparr>
       :: (nat, nat, string) mailbox)
   \<and> node_calls (fst (close 99 ''normal'' True
        (\<lparr>node_calls = [],
          node_throws = (\<lambda>c. if c = Send_exit 1 2 ''normal''
                              then Some (Std_exception ''no connection'') else None)\<rparr>,
         \<lparr>m_self = 1::nat, m_name = Atom 5, m_links = [2, 3],
          m_monitors = [(7::nat, 4)], m_queue = [], m_time_freed = 0\<rparr>)))
     = [Close_mailbox 1, Send_exit 1 2 ''normal'', Send_exit 1 3 ''normal'',
        Send_monitor_exit 1 4 7 ''normal'']
   \<and> m_links (snd (close 99 ''normal'' True
        (\<lparr>node_calls = [],
          node_throws = (\<lambda>c. if c = Send_exit 1 2 ''normal''
                              then Some (Std_exception ''no connection'') else None)\<rparr>,
         \<lparr>m_self = 1::nat, m_name = Atom 5, m_links = [2, 3],
          m_monitors = [(7::nat, 4)], m_queue = [], m_time_freed = 0\<rparr>))) = []"
proof -
  let ?mb = "\<lparr>m_self = 1::nat, m_name = Atom 5, m_links = [2, 3],
       m_monitors = [(7::nat, 4)], m_queue = [], m_time_freed = 0\<rparr>
       :: (nat, nat, string) mailbox"
  let ?nd = "\<lparr>node_calls = [],
          node_throws = (\<lambda>c. if c = Send_exit 1 2 ''normal''
                              then Some (Std_exception ''no connection'') else None)\<rparr>
       :: (nat, nat, string) node"
  have h: "mailbox_inv ?mb"
    by (simp add: mailbox_inv_def)
  from close_broadcast [OF h, where now = 99 and reason = "''normal''" and dereg = True
      and nd = ?nd and p = 2 and r = 7] h
  show ?thesis by simp
qed

section \<open>Delivery\<close>

lemma distinct_map_fst_filter:
  "distinct (map fst m) \<Longrightarrow> distinct (map fst (filter P m))"
  by (induction m) auto

lemma dispatch_inv:
  assumes "mailbox_inv mb"
  shows "mailbox_inv (fst (snd (dispatch fs a_msg mb)))"
  using assms
  by (cases "msg_type a_msg"; cases fs; cases "hd fs")
     (auto simp: dispatch_def next_fault_def mailbox_inv_def set_insert_def set_erase_def
        map_insert_def map_erase_def distinct_removeAll distinct_map_fst_filter)

lemma do_deliver_inv:
  assumes "mailbox_inv mb"
  shows "mailbox_inv (snd (do_deliver fs a_msg mb))"
proof -
  obtain r mb' fs' where d: "dispatch fs a_msg mb = (r, mb', fs')"
    by (cases "dispatch fs a_msg mb") auto
  with dispatch_inv [OF assms, of fs a_msg] have "mailbox_inv mb'" by simp
  then have q: "mailbox_inv (mb'\<lparr>m_queue := q\<rparr>)" for q
    by (simp add: mailbox_inv_def)
  show ?thesis
  proof (cases r)
    case None
    with d \<open>mailbox_inv mb'\<close> show ?thesis by (simp add: do_deliver_def)
  next
    case (Some e)
    with d q \<open>mailbox_inv mb'\<close> show ?thesis
      by (cases e; cases fs'; cases "hd fs'")
         (simp_all add: do_deliver_def next_fault_def)
  qed
qed

text \<open>When the dispatch throws: on the first fault, unless the message only erases.\<close>

lemma dispatch_throws_iff:
  "fst (dispatch fs a_msg mb) = Some e \<longleftrightarrow>
     msg_type a_msg \<noteq> UNLINK \<and> msg_type a_msg \<noteq> DEMONITOR_P \<and> fs \<noteq> [] \<and> hd fs = Some e"
  by (cases "msg_type a_msg"; cases fs; cases "hd fs")
     (auto simp: dispatch_def next_fault_def)





text \<open>
  C2. \<open>do_deliver\<close> is to remove the sender from the links and to enqueue the message
  for \<open>EXIT\<close>, \<open>EXIT2\<close> and their trace-token variants. The switch names only
  \<open>EXIT2\<close> and \<open>EXIT2_TT\<close>: an \<open>EXIT\<close> from the linked pid 2 is enqueued by the
  default branch and pid 2 stays linked, and so for \<open>EXIT_TT\<close>; the same message as
  \<open>EXIT2\<close> unlinks pid 2. Nothing throws in the first delivery; the links after the
  other two are the same whatever throws.
\<close>

theorem do_deliver_exit_keeps_link:
  "do_deliver [] \<lparr>msg_type = EXIT, sender_pid = 2::nat, get_ref = 0::nat,
        msg = ''killed'', error_flag = False\<rparr>
      \<lparr>m_self = 1::nat, m_name = Atom 5, m_links = [2, 3], m_monitors = [],
       m_queue = [], m_time_freed = 0\<rparr>
     = (None,
        \<lparr>m_self = 1::nat, m_name = Atom 5, m_links = [2, 3], m_monitors = [],
         m_queue = [\<lparr>msg_type = EXIT, sender_pid = 2::nat, get_ref = 0::nat,
                     msg = ''killed'', error_flag = False\<rparr>],
         m_time_freed = 0\<rparr>)
   \<and> m_links (snd (do_deliver fs \<lparr>msg_type = EXIT_TT, sender_pid = 2::nat, get_ref = 0::nat,
        msg = ''killed'', error_flag = False\<rparr>
      \<lparr>m_self = 1::nat, m_name = Atom 5, m_links = [2, 3], m_monitors = [],
       m_queue = [], m_time_freed = 0\<rparr>)) = [2, 3]
   \<and> m_links (snd (do_deliver fs \<lparr>msg_type = EXIT2, sender_pid = 2::nat, get_ref = 0::nat,
        msg = ''killed'', error_flag = False\<rparr>
      \<lparr>m_self = 1::nat, m_name = Atom 5, m_links = [2, 3], m_monitors = [],
       m_queue = [], m_time_freed = 0\<rparr>)) = [3]"
proof -
  have links: "m_links (snd (do_deliver fs a_msg mb))
      = (if msg_type a_msg = LINK \<and> fst (next_fault fs) = None
         then set_insert (sender_pid a_msg) (m_links mb)
         else if msg_type a_msg \<in> {UNLINK, EXIT2, EXIT2_TT}
         then set_erase (sender_pid a_msg) (m_links mb)
         else m_links mb)"
    for fs :: "exn option list" and a_msg :: "(nat, nat, string) transport_msg"
      and mb :: "(nat, nat, string) mailbox"
  proof -
    obtain r fs1 where nf: "next_fault fs = (r, fs1)" by (cases "next_fault fs") auto
    obtain r2 fs2 where nf2: "next_fault fs1 = (r2, fs2)" by (cases "next_fault fs1") auto
    show ?thesis
    proof (cases r)
      case None
      with nf show ?thesis
        by (cases "msg_type a_msg") (simp_all add: do_deliver_def dispatch_def)
    next
      case (Some e)
      with nf nf2 show ?thesis
        by (cases "msg_type a_msg"; cases e; cases r2)
           (simp_all add: do_deliver_def dispatch_def)
    qed
  qed
  have first: "do_deliver [] \<lparr>msg_type = EXIT, sender_pid = 2::nat, get_ref = 0::nat,
        msg = ''killed'', error_flag = False\<rparr>
      \<lparr>m_self = 1::nat, m_name = Atom 5, m_links = [2, 3], m_monitors = [],
       m_queue = [], m_time_freed = 0\<rparr>
     = (None,
        \<lparr>m_self = 1::nat, m_name = Atom 5, m_links = [2, 3], m_monitors = [],
         m_queue = [\<lparr>msg_type = EXIT, sender_pid = 2::nat, get_ref = 0::nat,
                     msg = ''killed'', error_flag = False\<rparr>],
         m_time_freed = 0\<rparr>)"
    by (simp add: do_deliver_def dispatch_def next_fault_def push_back_def)
  from first show ?thesis
    by (simp add: links set_erase_def)
qed

lemma do_deliver_exit2:
  assumes "msg_type a_msg = EXIT2 \<or> msg_type a_msg = EXIT2_TT"
  shows "do_deliver [] a_msg mb
     = (None, mb\<lparr>m_links := removeAll (sender_pid a_msg) (m_links mb),
                  m_queue := m_queue mb @ [a_msg]\<rparr>)"
  using assms
  by (auto simp: do_deliver_def dispatch_def next_fault_def push_back_def set_erase_def)

lemma do_deliver_exit:
  assumes "msg_type a_msg = EXIT \<or> msg_type a_msg = EXIT_TT"
  shows "do_deliver [] a_msg mb = (None, mb\<lparr>m_queue := m_queue mb @ [a_msg]\<rparr>)"
  using assms by (auto simp: do_deliver_def dispatch_def next_fault_def push_back_def)

section \<open>Receive handlers\<close>

text \<open>
  C1. The handlers of \<open>async_receive\<close> and \<open>async_match\<close> are to return false,
  processing nothing, when the mailbox has been closed (\<open>m_time_freed\<close> is not 0) and to
  run the user's handler when it is live. The code tests \<open>m_time_freed == 0\<close>: on a
  live mailbox both handlers return false and leave the message and the user's state as
  they are, whatever the message and the error code; on a closed one the user's handler runs
  and the matcher is applied.
\<close>

theorem receive_handlers_test_inverted:
  "async_receive_handler h (mb\<lparr>m_time_freed := 0\<rparr>) a_msg ec u = (False, a_msg, u)
   \<and> async_match_handler match a_on_timeout (mb\<lparr>m_time_freed := 0\<rparr>) a_msg ec u
       = (False, a_msg, u)
   \<and> async_receive_handler h (mb\<lparr>m_time_freed := Suc n\<rparr>) a_msg Success u
       = (fst (h (mb\<lparr>m_time_freed := Suc n\<rparr>) a_msg u), None,
          snd (h (mb\<lparr>m_time_freed := Suc n\<rparr>) a_msg u))
   \<and> async_match_handler match a_on_timeout (mb\<lparr>m_time_freed := Suc n\<rparr>) (Some m) Success u
       = (True, None, match (msg m) u)"
  by (simp add: async_receive_handler_def async_match_handler_def)

end
